theory Spec2Isabelle
  imports Complex_Main
begin

section \<open>Data model\<close>

text \<open>
  The library module keeps three tables that matter here: books, members and borrowing
  records. A calendar date is the number of days since a fixed origin, so that the
  difference of two dates is the \<open>.days\<close> of the Python \<open>timedelta\<close>. The ambient
  \<open>fields.Date.today()\<close> is an explicit argument \<open>today\<close> of every operation that reads it.
  Monetary amounts (Python floats) are idealised as real numbers.
\<close>

type_synonym date = int

datatype status = Borrowed | Returned | Overdue

datatype member_status = Active | Inactive | Pending

record book =
  book_key :: nat
  title :: string
  author :: string
  isbn :: string
  total_copies :: int
  available_copies :: int

record member =
  member_key :: nat
  member_sequence :: string
  name :: string
  email :: string
  phone :: string
  max_borrow_limit :: int
  current_borrowed :: int
  member_status :: member_status

record borrowing_record =
  record_key :: nat
  sequence :: string
  member_id :: nat
  book_id :: nat
  librarian_id :: nat
  borrow_date :: date
  expected_return_date :: date
  actual_return_date :: "date option"
  status :: status
  days_overdue :: int
  fine_amount :: real
  fine_per_day :: real

text \<open>
  The database: the rows of each table in primary-key order, and the next primary key of
  each table (keys are never reused).
\<close>

record env =
  books :: "book list"
  members :: "member list"
  records :: "borrowing_record list"
  next_book :: nat
  next_member :: nat
  next_record :: nat

text \<open>
  Every \<open>raise\<close> of the source is a value. The constructors carry what the message of
  the \<open>ValidationError\<close> interpolates.
\<close>

datatype error =
    LimitExceeded string int
      \<comment> \<open>Member "name" has reached the borrowing limit of N books.\<close>
  | Unavailable string
      \<comment> \<open>Book "title" is not available for borrowing.\<close>
  | AlreadyReturned
      \<comment> \<open>This book has already been returned.\<close>
  | NotBorrowed
      \<comment> \<open>Can only extend due date for borrowed books.\<close>
  | Blocked string nat nat status
      \<comment> \<open>Cannot delete borrowing record "sequence" for member - book (Status: ...).\<close>
  | ReturnDateNotAfterBorrow
      \<comment> \<open>Expected return date must be after the borrow date.\<close>
  | ActualReturnBeforeBorrow
      \<comment> \<open>Actual return date cannot be before the borrow date.\<close>
  | PhoneRegistered string string string
      \<comment> \<open>Phone number 'phone' is already registered to member: name (sequence).\<close>
  | UniquePhone
      \<comment> \<open>SQL constraint unique_phone: Phone number must be unique!\<close>
  | StatusChangeBlocked member_status string int
      \<comment> \<open>Cannot change member "name" to Inactive/Pending status; has N borrowed books.\<close>
  | IsbnExists string string string
      \<comment> \<open>A book with ISBN isbn already exists: "title" by author.\<close>
  | UniqueIsbn
      \<comment> \<open>SQL constraint unique_isbn: ISBN must be unique!\<close>
  | MissingError
      \<comment> \<open>the ORM's error for a record that does not exist\<close>
  | RequiredMissing
      \<comment> \<open>a required field has no value\<close>
  | ForeignKey
      \<comment> \<open>a Many2one names a row that does not exist, or ondelete='restrict' blocks a delete\<close>

text \<open>The result payload that the user interface displays.\<close>

datatype fragment =
    Text string
  | Fixed2 real
      \<comment> \<open>a replacement field of an f-string with the format specification \<open>.2f\<close>\<close>

record notification =
  n_title :: string
  n_message :: "fragment list"
  n_type :: string
  n_sticky :: bool

record act_window =
  w_name :: string
  w_res_model :: string
  w_res_id :: nat
  w_view_mode :: string
  w_target :: string

section \<open>Lookups\<close>

definition browse_record :: "env \<Rightarrow> nat \<Rightarrow> borrowing_record option" where
  "browse_record s i = find (\<lambda>r. record_key r = i) (records s)"

definition browse_member :: "env \<Rightarrow> nat \<Rightarrow> member option" where
  "browse_member s i = find (\<lambda>m. member_key m = i) (members s)"

definition browse_book :: "env \<Rightarrow> nat \<Rightarrow> book option" where
  "browse_book s i = find (\<lambda>b. book_key b = i) (books s)"

section \<open>Computed fields\<close>

text \<open>\<open>BorrowingRecord._compute_days_overdue\<close>.\<close>

definition compute_days_overdue :: "date \<Rightarrow> borrowing_record \<Rightarrow> int" where
  "compute_days_overdue today r =
     (if status r \<in> {Borrowed, Overdue} then
        (if today > expected_return_date r then today - expected_return_date r else 0)
      else if status r = Returned \<and> actual_return_date r \<noteq> None then
        (case actual_return_date r of
           Some a \<Rightarrow> (if a > expected_return_date r then a - expected_return_date r else 0)
         | None \<Rightarrow> 0)
      else 0)"

text \<open>
  \<open>Book._compute_available_copies\<close>; \<open>book.borrowing_record_ids\<close> is the One2many
  over \<open>book_id\<close>.
\<close>

definition borrowing_record_ids :: "borrowing_record list \<Rightarrow> book \<Rightarrow> borrowing_record list" where
  "borrowing_record_ids rs b = filter (\<lambda>r. book_id r = book_key b) rs"

definition compute_available_copies :: "borrowing_record list \<Rightarrow> book \<Rightarrow> int" where
  "compute_available_copies rs b =
     (let unavailable_count =
            int (length (filter (\<lambda>r. status r \<in> {Borrowed, Overdue}) (borrowing_record_ids rs b)))
      in max 0 (total_copies b - unavailable_count))"

text \<open>
  \<open>Member._compute_current_borrowed\<close>; \<open>member.borrowing_ids\<close> is the One2many over
  \<open>member_id\<close>.
\<close>

definition borrowing_ids :: "borrowing_record list \<Rightarrow> member \<Rightarrow> borrowing_record list" where
  "borrowing_ids rs m = filter (\<lambda>r. member_id r = member_key m) rs"

definition compute_current_borrowed :: "borrowing_record list \<Rightarrow> member \<Rightarrow> int" where
  "compute_current_borrowed rs m =
     int (length (filter (\<lambda>b. status b = Borrowed) (borrowing_ids rs m)))"

text \<open>
  The ORM recomputes a stored computed field of the rows whose dependencies were
  modified: the books and members named by the borrowing records that were touched.
\<close>

definition recompute_books :: "nat set \<Rightarrow> env \<Rightarrow> env" where
  "recompute_books ks s =
     s\<lparr>books := map (\<lambda>b. if book_key b \<in> ks
                           then b\<lparr>available_copies := compute_available_copies (records s) b\<rparr>
                           else b) (books s)\<rparr>"

definition recompute_members :: "nat set \<Rightarrow> env \<Rightarrow> env" where
  "recompute_members ks s =
     s\<lparr>members := map (\<lambda>m. if member_key m \<in> ks
                             then m\<lparr>current_borrowed := compute_current_borrowed (records s) m\<rparr>
                             else m) (members s)\<rparr>"

section \<open>Borrowing records: the ORM's write and the overrides\<close>

text \<open>
  The values of a \<open>create\<close> or \<open>write\<close> call: a field that the dictionary does not
  hold is \<open>None\<close>. \<open>actual_return_date\<close> can be written to \<open>False\<close>, hence the nested
  option.
\<close>

record record_vals =
  v_sequence :: "string option"
  v_member_id :: "nat option"
  v_book_id :: "nat option"
  v_librarian_id :: "nat option"
  v_borrow_date :: "date option"
  v_expected_return_date :: "date option"
  v_actual_return_date :: "date option option"
  v_status :: "status option"
  v_days_overdue :: "int option"
  v_fine_amount :: "real option"
  v_fine_per_day :: "real option"

definition no_vals :: record_vals where
  "no_vals = \<lparr>v_sequence = None, v_member_id = None, v_book_id = None, v_librarian_id = None,
     v_borrow_date = None, v_expected_return_date = None, v_actual_return_date = None,
     v_status = None, v_days_overdue = None, v_fine_amount = None, v_fine_per_day = None\<rparr>"

definition or_keep :: "'a option \<Rightarrow> 'a \<Rightarrow> 'a" where
  "or_keep v old = (case v of None \<Rightarrow> old | Some x \<Rightarrow> x)"

definition apply_record_vals :: "record_vals \<Rightarrow> borrowing_record \<Rightarrow> borrowing_record" where
  "apply_record_vals v r =
     r\<lparr>sequence := or_keep (v_sequence v) (sequence r),
       member_id := or_keep (v_member_id v) (member_id r),
       book_id := or_keep (v_book_id v) (book_id r),
       librarian_id := or_keep (v_librarian_id v) (librarian_id r),
       borrow_date := or_keep (v_borrow_date v) (borrow_date r),
       expected_return_date := or_keep (v_expected_return_date v) (expected_return_date r),
       actual_return_date := or_keep (v_actual_return_date v) (actual_return_date r),
       status := or_keep (v_status v) (status r),
       days_overdue := or_keep (v_days_overdue v) (days_overdue r),
       fine_amount := or_keep (v_fine_amount v) (fine_amount r),
       fine_per_day := or_keep (v_fine_per_day v) (fine_per_day r)\<rparr>"

text \<open>
  \<open>days_overdue\<close> is stored, computed and not read-only: a call that names one of its
  dependencies recomputes it, unless the call assigns the field itself.
\<close>

definition days_overdue_stale :: "record_vals \<Rightarrow> bool" where
  "days_overdue_stale v \<longleftrightarrow>
     v_days_overdue v = None \<and>
     (v_expected_return_date v \<noteq> None \<or> v_actual_return_date v \<noteq> None \<or> v_status v \<noteq> None)"

definition refresh_days_overdue :: "date \<Rightarrow> record_vals \<Rightarrow> borrowing_record \<Rightarrow> borrowing_record" where
  "refresh_days_overdue today v r =
     (if days_overdue_stale v then r\<lparr>days_overdue := compute_days_overdue today r\<rparr> else r)"

text \<open>
  \<open>_check_return_date\<close> and \<open>_check_actual_return_date\<close>; \<open>@api.constrains\<close> runs a
  check when the call names one of the fields of its decorator.
\<close>

definition check_return_date :: "borrowing_record \<Rightarrow> bool" where
  "check_return_date r \<longleftrightarrow> \<not> expected_return_date r \<le> borrow_date r"

definition check_actual_return_date :: "borrowing_record \<Rightarrow> bool" where
  "check_actual_return_date r \<longleftrightarrow>
     (case actual_return_date r of None \<Rightarrow> True | Some a \<Rightarrow> \<not> a < borrow_date r)"

definition fk_ok :: "env \<Rightarrow> record_vals \<Rightarrow> bool" where
  "fk_ok s v \<longleftrightarrow>
     (case v_member_id v of None \<Rightarrow> True | Some i \<Rightarrow> browse_member s i \<noteq> None) \<and>
     (case v_book_id v of None \<Rightarrow> True | Some i \<Rightarrow> browse_book s i \<noteq> None)"

text \<open>
  \<open>models.Model.write\<close> on borrowing records: assign the fields, recompute
  \<open>days_overdue\<close>, run the constraints, and recompute the aggregates that depend on
  \<open>borrowing_record_ids.status\<close> (books) and on \<open>borrowing_ids\<close>, \<open>borrowing_ids.status\<close>
  (members).
\<close>

definition selected :: "nat list \<Rightarrow> borrowing_record list \<Rightarrow> borrowing_record list" where
  "selected ids rs = filter (\<lambda>r. record_key r \<in> set ids) rs"

definition written :: "date \<Rightarrow> record_vals \<Rightarrow> borrowing_record \<Rightarrow> borrowing_record" where
  "written today v r = refresh_days_overdue today v (apply_record_vals v r)"

definition assign_records ::
  "date \<Rightarrow> nat list \<Rightarrow> record_vals \<Rightarrow> borrowing_record list \<Rightarrow> borrowing_record list" where
  "assign_records today ids v rs =
     map (\<lambda>r. if record_key r \<in> set ids then written today v r else r) rs"

definition record_constraints :: "record_vals \<Rightarrow> borrowing_record list \<Rightarrow> error option" where
  "record_constraints v new =
     (if (v_expected_return_date v \<noteq> None \<or> v_borrow_date v \<noteq> None) \<and>
         (\<exists>r\<in>set new. \<not> check_return_date r)
      then Some ReturnDateNotAfterBorrow
      else if (v_actual_return_date v \<noteq> None \<or> v_borrow_date v \<noteq> None) \<and>
         (\<exists>r\<in>set new. \<not> check_actual_return_date r)
      then Some ActualReturnBeforeBorrow
      else None)"

definition record_triggers ::
  "record_vals \<Rightarrow> borrowing_record list \<Rightarrow> borrowing_record list \<Rightarrow> env \<Rightarrow> env" where
  "record_triggers v old new s =
     (let s1 = (if v_status v \<noteq> None \<or> v_book_id v \<noteq> None
                then recompute_books (book_id ` set old \<union> book_id ` set new) s else s)
      in if v_status v \<noteq> None \<or> v_member_id v \<noteq> None
         then recompute_members (member_id ` set old \<union> member_id ` set new) s1
         else s1)"

definition orm_write_records :: "date \<Rightarrow> env \<Rightarrow> nat list \<Rightarrow> record_vals \<Rightarrow> error + env" where
  "orm_write_records today s ids v =
     (if \<exists>i\<in>set ids. browse_record s i = None then Inl MissingError
      else if \<not> fk_ok s v then Inl ForeignKey
      else
        let old = selected ids (records s);
            rs = assign_records today ids v (records s);
            new = selected ids rs
        in case record_constraints v new of
             Some e \<Rightarrow> Inl e
           | None \<Rightarrow> Inr (record_triggers v old new (s\<lparr>records := rs\<rparr>)))"

text \<open>
  \<open>BorrowingRecord.write\<close>: the ORM's write, then
  \<open>record.member_id._recompute_field('current_borrowed')\<close> for every record of the
  call when \<open>status\<close> is among the values.
\<close>

definition write_records :: "date \<Rightarrow> env \<Rightarrow> nat list \<Rightarrow> record_vals \<Rightarrow> error + env" where
  "write_records today s ids v =
     (case orm_write_records today s ids v of
        Inl e \<Rightarrow> Inl e
      | Inr s' \<Rightarrow>
          if v_status v \<noteq> None
          then Inr (recompute_members (member_id ` set (selected ids (records s'))) s')
          else Inr s')"

text \<open>
  \<open>BorrowingRecord.unlink\<close>. The loop \<open>for record in self\<close> visits the ids in the order of
  the recordset and reads \<open>record.status\<close>, which raises \<open>MissingError\<close> for an id that
  names no row; the first record met that is borrowed or overdue raises the blocking error.
  Only when the loop has passed does \<open>super().unlink()\<close> remove the rows.
\<close>

fun unlink_guard :: "env \<Rightarrow> nat list \<Rightarrow> error option" where
  "unlink_guard s [] = None"
| "unlink_guard s (i # ids) =
     (case browse_record s i of
        None \<Rightarrow> Some MissingError
      | Some record \<Rightarrow>
          if status record \<in> {Borrowed, Overdue}
          then Some (Blocked (sequence record) (member_id record) (book_id record) (status record))
          else unlink_guard s ids)"

definition unlink_records :: "env \<Rightarrow> nat list \<Rightarrow> error + env" where
  "unlink_records s ids =
     (case unlink_guard s ids of
        Some e \<Rightarrow> Inl e
      | None \<Rightarrow>
          let self = selected ids (records s) in
          Inr (recompute_members (member_id ` set self)
                (recompute_books (book_id ` set self)
                  (s\<lparr>records := filter (\<lambda>r. record_key r \<notin> set ids) (records s)\<rparr>))))"

text \<open>\<open>BorrowingRecord.action_return_book\<close>.\<close>

definition return_vals :: "date \<Rightarrow> real \<Rightarrow> record_vals" where
  "return_vals return_date fine =
     no_vals\<lparr>v_actual_return_date := Some (Some return_date), v_status := Some Returned,
             v_fine_amount := Some fine\<rparr>"

definition return_notification :: "real \<Rightarrow> notification" where
  "return_notification fine =
     \<lparr>n_title = ''Book Returned'',
      n_message = [Text ''Book returned successfully. Fine: RM '', Fixed2 fine],
      n_type = ''success'', n_sticky = False\<rparr>"

definition action_return_book :: "date \<Rightarrow> env \<Rightarrow> nat \<Rightarrow> error + (env \<times> notification)" where
  "action_return_book today s i =
     (case browse_record s i of
        None \<Rightarrow> Inl MissingError
      | Some self \<Rightarrow>
          if status self = Returned then Inl AlreadyReturned
          else
            let return_date = today;
                fine = (if return_date > expected_return_date self
                        then of_int (return_date - expected_return_date self) * fine_per_day self
                        else 0)
            in (case write_records today s [i] (return_vals return_date fine) of
                  Inl e \<Rightarrow> Inl e
                | Inr s' \<Rightarrow> Inr (s', return_notification fine)))"

text \<open>\<open>BorrowingRecord.action_extend_due_date\<close>: it reads the record and writes nothing.\<close>

definition action_extend_due_date :: "env \<Rightarrow> nat \<Rightarrow> error + (env \<times> act_window)" where
  "action_extend_due_date s i =
     (case browse_record s i of
        None \<Rightarrow> Inl MissingError
      | Some self \<Rightarrow>
          if status self \<noteq> Borrowed then Inl NotBorrowed
          else Inr (s, \<lparr>w_name = ''Extend Due Date'', w_res_model = ''library.borrowing.record'',
                        w_res_id = record_key self, w_view_mode = ''form'', w_target = ''new''\<rparr>))"

text \<open>
  \<open>BorrowingRecord.create\<close>. \<open>code\<close> is what
  \<open>ir.sequence.next_by_code('library.borrowing.record')\<close> returns (\<open>None\<close> for
  \<open>False\<close>); the sequence generator itself is outside the module. A key of the
  dictionary is read with \<open>vals.get\<close>, so a missing key and a zero id both skip the check.
\<close>

definition next_or_new :: "string option \<Rightarrow> string" where
  "next_or_new code = (case code of None \<Rightarrow> ''New'' | Some c \<Rightarrow> if c = [] then ''New'' else c)"

definition vals_get_key :: "nat option \<Rightarrow> nat option" where
  "vals_get_key v = (case v of None \<Rightarrow> None | Some i \<Rightarrow> if i = 0 then None else Some i)"

definition search_count_borrowed :: "env \<Rightarrow> nat \<Rightarrow> int" where
  "search_count_borrowed s m =
     int (length (filter (\<lambda>r. member_id r = m \<and> status r = Borrowed) (records s)))"

definition validate_borrow_limit :: "env \<Rightarrow> record_vals \<Rightarrow> error option" where
  "validate_borrow_limit s vals =
     (case vals_get_key (v_member_id vals) of
        None \<Rightarrow> None
      | Some m \<Rightarrow>
          (case browse_member s m of
             None \<Rightarrow> Some MissingError
           | Some member \<Rightarrow>
               let current_borrowed = search_count_borrowed s m in
               if current_borrowed \<ge> max_borrow_limit member
               then Some (LimitExceeded (name member) (max_borrow_limit member))
               else None))"

definition validate_availability :: "env \<Rightarrow> record_vals \<Rightarrow> error option" where
  "validate_availability s vals =
     (case vals_get_key (v_book_id vals) of
        None \<Rightarrow> None
      | Some b \<Rightarrow>
          (case browse_book s b of
             None \<Rightarrow> Some MissingError
           | Some book \<Rightarrow>
               if available_copies book < 1 then Some (Unavailable (title book)) else None))"

definition overdue_on_create :: "date \<Rightarrow> record_vals \<Rightarrow> record_vals" where
  "overdue_on_create today vals =
     (case v_expected_return_date vals of
        None \<Rightarrow> vals
      | Some expected_date \<Rightarrow>
          if expected_date < today then vals\<lparr>v_status := Some Overdue\<rparr> else vals)"

text \<open>
  \<open>models.Model.create\<close> on borrowing records: the defaults of the field declarations,
  the required fields and the Many2one references, the computed field, the constraints,
  and the aggregates of the book and the member of the new record.
\<close>

definition new_record :: "date \<Rightarrow> nat \<Rightarrow> record_vals \<Rightarrow> borrowing_record" where
  "new_record today k v =
     (let r = \<lparr>record_key = k,
                sequence = or_keep (v_sequence v) ''New'',
                member_id = the (v_member_id v),
                book_id = the (v_book_id v),
                librarian_id = the (v_librarian_id v),
                borrow_date = or_keep (v_borrow_date v) today,
                expected_return_date = the (v_expected_return_date v),
                actual_return_date = or_keep (v_actual_return_date v) None,
                status = or_keep (v_status v) Borrowed,
                days_overdue = 0,
                fine_amount = or_keep (v_fine_amount v) 0,
                fine_per_day = or_keep (v_fine_per_day v) 5\<rparr>
      in r\<lparr>days_overdue := or_keep (v_days_overdue v) (compute_days_overdue today r)\<rparr>)"

definition orm_create_record :: "date \<Rightarrow> env \<Rightarrow> record_vals \<Rightarrow> error + env" where
  "orm_create_record today s v =
     (if v_member_id v = None \<or> v_book_id v = None \<or> v_librarian_id v = None \<or>
         v_expected_return_date v = None
      then Inl RequiredMissing
      else if \<not> fk_ok s v then Inl ForeignKey
      else
        let r = new_record today (next_record s) v in
        if \<not> check_return_date r then Inl ReturnDateNotAfterBorrow
        else if \<not> check_actual_return_date r then Inl ActualReturnBeforeBorrow
        else Inr (recompute_members {member_id r}
                   (recompute_books {book_id r}
                     (s\<lparr>records := records s @ [r], next_record := Suc (next_record s)\<rparr>))))"

definition create_record :: "string option \<Rightarrow> date \<Rightarrow> env \<Rightarrow> record_vals \<Rightarrow> error + env" where
  "create_record code today s vals0 =
     (let vals = (if v_sequence vals0 = None \<or> v_sequence vals0 = Some [] \<or>
                     v_sequence vals0 = Some ''New''
                  then vals0\<lparr>v_sequence := Some (next_or_new code)\<rparr> else vals0)
      in case validate_borrow_limit s vals of
           Some e \<Rightarrow> Inl e
         | None \<Rightarrow>
             (case validate_availability s vals of
                Some e \<Rightarrow> Inl e
              | None \<Rightarrow>
                  (case orm_create_record today s (overdue_on_create today vals) of
                     Inl e \<Rightarrow> Inl e
                   | Inr s' \<Rightarrow> Inr (recompute_members {the (v_member_id vals)} s'))))"

text \<open>
  \<open>search\<close> on borrowing records returns the matching rows in the model's \<open>_order\<close>,
  \<open>borrow_date desc\<close>.
\<close>

definition search_records :: "(borrowing_record \<Rightarrow> bool) \<Rightarrow> env \<Rightarrow> nat list" where
  "search_records P s =
     map record_key (sort_key (\<lambda>r. - borrow_date r) (filter P (records s)))"

text \<open>\<open>BorrowingRecord.update_overdue_records\<close>.\<close>

definition update_overdue_records :: "date \<Rightarrow> env \<Rightarrow> error + env" where
  "update_overdue_records today s =
     (let overdue_records =
            search_records (\<lambda>r. status r = Borrowed \<and> expected_return_date r < today) s
      in write_records today s overdue_records (no_vals\<lparr>v_status := Some Overdue\<rparr>))"

text \<open>
  \<open>BorrowingRecord.cron_calculate_overdue_fines\<close>. The two \<open>for\<close> loops run over the
  result of a search made before the loop. The locals \<open>total_updated\<close> and
  \<open>total_fines_calculated\<close> start at 0 and are increased after every \<open>write\<close> the method
  makes, and nowhere else; the final log line reports them. An exception leaves the loop, and
  the \<open>except\<close> clause turns it into the result \<open>False\<close> with the writes made so far. The
  result of the model is the value returned, the two locals as they are when the method
  leaves, and the database.
\<close>

record sweep_totals =
  total_updated :: nat
  total_fines_calculated :: real

definition fine_vals :: "int \<Rightarrow> real \<Rightarrow> record_vals" where
  "fine_vals d fine = no_vals\<lparr>v_fine_amount := Some fine, v_days_overdue := Some d\<rparr>"

definition count_update :: "real \<Rightarrow> sweep_totals \<Rightarrow> sweep_totals" where
  "count_update fine t =
     t\<lparr>total_updated := total_updated t + 1,
       total_fines_calculated := total_fines_calculated t + fine\<rparr>"

fun transition_loop ::
  "date \<Rightarrow> env \<Rightarrow> sweep_totals \<Rightarrow> nat list \<Rightarrow> bool \<times> sweep_totals \<times> env" where
  "transition_loop today s t [] = (True, t, s)"
| "transition_loop today s t (i # ids) =
     (case browse_record s i of
        None \<Rightarrow> (False, t, s)
      | Some record \<Rightarrow>
          let days = today - expected_return_date record;
              fine = of_int days * fine_per_day record
          in (case write_records today s [i] ((fine_vals days fine)\<lparr>v_status := Some Overdue\<rparr>) of
                Inl e \<Rightarrow> (False, t, s)
              | Inr s' \<Rightarrow> transition_loop today s' (count_update fine t) ids))"

fun refresh_loop ::
  "date \<Rightarrow> env \<Rightarrow> sweep_totals \<Rightarrow> nat list \<Rightarrow> bool \<times> sweep_totals \<times> env" where
  "refresh_loop today s t [] = (True, t, s)"
| "refresh_loop today s t (i # ids) =
     (case browse_record s i of
        None \<Rightarrow> (False, t, s)
      | Some record \<Rightarrow>
          let days = today - expected_return_date record;
              new_fine_amount = of_int days * fine_per_day record
          in if fine_amount record \<noteq> new_fine_amount \<or> days_overdue record \<noteq> days
             then (case write_records today s [i] (fine_vals days new_fine_amount) of
                     Inl e \<Rightarrow> (False, t, s)
                   | Inr s' \<Rightarrow> refresh_loop today s' (count_update new_fine_amount t) ids)
             else refresh_loop today s t ids)"

definition cron_calculate_overdue_fines :: "date \<Rightarrow> env \<Rightarrow> bool \<times> sweep_totals \<times> env" where
  "cron_calculate_overdue_fines today s =
     (let overdue_records =
            search_records (\<lambda>r. status r = Borrowed \<and> expected_return_date r < today) s;
          (ok, totals, s1) =
            transition_loop today s \<lparr>total_updated = 0, total_fines_calculated = 0\<rparr>
              overdue_records
      in if \<not> ok then (False, totals, s1)
         else
           let existing_overdue =
                 search_records (\<lambda>r. status r = Overdue \<and> expected_return_date r < today) s1
           in refresh_loop today s1 totals existing_overdue)"

section \<open>Members\<close>

record member_vals =
  mv_sequence :: "string option"
  mv_name :: "string option"
  mv_email :: "string option"
  mv_phone :: "string option"
  mv_max_borrow_limit :: "int option"
  mv_member_status :: "member_status option"

definition no_member_vals :: member_vals where
  "no_member_vals = \<lparr>mv_sequence = None, mv_name = None, mv_email = None, mv_phone = None,
     mv_max_borrow_limit = None, mv_member_status = None\<rparr>"

definition apply_member_vals :: "member_vals \<Rightarrow> member \<Rightarrow> member" where
  "apply_member_vals v m =
     m\<lparr>member_sequence := or_keep (mv_sequence v) (member_sequence m),
       name := or_keep (mv_name v) (name m),
       email := or_keep (mv_email v) (email m),
       phone := or_keep (mv_phone v) (phone m),
       max_borrow_limit := or_keep (mv_max_borrow_limit v) (max_borrow_limit m),
       member_status := or_keep (mv_member_status v) (member_status m)\<rparr>"

text \<open>The first record of \<open>for record in self\<close> on which a check raises.\<close>

fun first_error :: "('a \<Rightarrow> error option) \<Rightarrow> 'a list \<Rightarrow> error option" where
  "first_error chk [] = None"
| "first_error chk (x # xs) = (case chk x of Some e \<Rightarrow> Some e | None \<Rightarrow> first_error chk xs)"

text \<open>\<open>Member._check_phone_unique\<close>, for one record of the loop.\<close>

definition check_phone_unique :: "member list \<Rightarrow> member \<Rightarrow> error option" where
  "check_phone_unique ms record =
     (if phone record \<noteq> [] then
        (case find (\<lambda>e. phone e = phone record \<and> member_key e \<noteq> member_key record \<and>
                          member_status e \<noteq> Inactive) ms of
           Some existing_member \<Rightarrow>
             Some (PhoneRegistered (phone record) (name existing_member)
                     (member_sequence existing_member))
         | None \<Rightarrow> None)
      else None)"

text \<open>\<open>Member._check_status_change_borrowing_limit\<close>, for one record of the loop.\<close>

definition check_status_change_borrowing_limit :: "member \<Rightarrow> error option" where
  "check_status_change_borrowing_limit record =
     (if member_status record = Inactive \<and> current_borrowed record > 5
      then Some (StatusChangeBlocked Inactive (name record) (current_borrowed record))
      else if member_status record = Pending \<and> current_borrowed record > 5
      then Some (StatusChangeBlocked Pending (name record) (current_borrowed record))
      else None)"

text \<open>
  The SQL constraint \<open>unique_phone\<close>, \<open>UNIQUE(phone)\<close>: no two rows of the table hold
  the same phone number, whatever their status.
\<close>

definition unique_phone :: "member list \<Rightarrow> bool" where
  "unique_phone ms \<longleftrightarrow> distinct (map phone ms)"

text \<open>The branches on the status in \<open>create\<close>, \<open>write\<close> and the onchange handler.\<close>

definition limit_of_status :: "member_status \<Rightarrow> int" where
  "limit_of_status st =
     (if st = Active then 10 else if st = Inactive then 5 else if st = Pending then 5 else 5)"

text \<open>
  \<open>models.Model.write\<close> on members. The rows reach the database, where the SQL
  constraint is enforced, before the constraint methods of the fields of the call run.
\<close>

definition orm_write_members :: "env \<Rightarrow> nat list \<Rightarrow> member_vals \<Rightarrow> error + env" where
  "orm_write_members s ids v =
     (if \<exists>i\<in>set ids. browse_member s i = None then Inl MissingError
      else
        let ms = map (\<lambda>m. if member_key m \<in> set ids then apply_member_vals v m else m) (members s);
            self = filter (\<lambda>m. member_key m \<in> set ids) ms
        in if mv_phone v \<noteq> None \<and> \<not> unique_phone ms then Inl UniquePhone
           else
             (case (if mv_phone v \<noteq> None then first_error (check_phone_unique ms) self else None) of
                Some e \<Rightarrow> Inl e
              | None \<Rightarrow>
                  (case (if mv_member_status v \<noteq> None
                         then first_error check_status_change_borrowing_limit self else None) of
                     Some e \<Rightarrow> Inl e
                   | None \<Rightarrow> Inr (s\<lparr>members := ms\<rparr>))))"

text \<open>\<open>Member.write\<close>.\<close>

definition write_members :: "env \<Rightarrow> nat list \<Rightarrow> member_vals \<Rightarrow> error + env" where
  "write_members s ids vals =
     (case orm_write_members s ids vals of
        Inl e \<Rightarrow> Inl e
      | Inr s' \<Rightarrow>
          if mv_member_status vals \<noteq> None
          then Inr (s'\<lparr>members :=
                      map (\<lambda>m. if member_key m \<in> set ids
                                then m\<lparr>max_borrow_limit := limit_of_status (member_status m)\<rparr>
                                else m) (members s')\<rparr>)
          else Inr s')"

text \<open>
  \<open>models.Model.create\<close> on members: the defaults (\<open>'New'\<close>, limit 5, status active),
  the required fields, the insertion under the SQL constraint, the computed counter, and
  the constraint methods.
\<close>

definition new_member :: "env \<Rightarrow> member_vals \<Rightarrow> member" where
  "new_member s v =
     (let m = \<lparr>member_key = next_member s,
                member_sequence = or_keep (mv_sequence v) ''New'',
                name = the (mv_name v),
                email = the (mv_email v),
                phone = the (mv_phone v),
                max_borrow_limit = or_keep (mv_max_borrow_limit v) 5,
                current_borrowed = 0,
                member_status = or_keep (mv_member_status v) Active\<rparr>
      in m\<lparr>current_borrowed := compute_current_borrowed (records s) m\<rparr>)"

definition orm_create_member :: "env \<Rightarrow> member_vals \<Rightarrow> error + env" where
  "orm_create_member s v =
     (if mv_name v = None \<or> mv_email v = None \<or> mv_phone v = None then Inl RequiredMissing
      else
        let m = new_member s v;
            ms = members s @ [m]
        in if \<not> unique_phone ms then Inl UniquePhone
           else
             (case check_phone_unique ms m of
                Some e \<Rightarrow> Inl e
              | None \<Rightarrow>
                  (case check_status_change_borrowing_limit m of
                     Some e \<Rightarrow> Inl e
                   | None \<Rightarrow> Inr (s\<lparr>members := ms, next_member := Suc (next_member s)\<rparr>))))"

text \<open>
  \<open>Member.create\<close>; \<open>code\<close> is the result of
  \<open>ir.sequence.next_by_code('library.member')\<close>.
\<close>

definition create_member_vals :: "string option \<Rightarrow> member_vals \<Rightarrow> member_vals" where
  "create_member_vals code vals0 =
     (let vals = (if or_keep (mv_sequence vals0) ''New'' = ''New''
                  then vals0\<lparr>mv_sequence := Some (next_or_new code)\<rparr> else vals0)
      in if mv_member_status vals = Some Active then vals\<lparr>mv_max_borrow_limit := Some 10\<rparr>
         else if mv_member_status vals = Some Pending then vals\<lparr>mv_max_borrow_limit := Some 5\<rparr>
         else if mv_member_status vals = Some Inactive then vals\<lparr>mv_max_borrow_limit := Some 5\<rparr>
         else vals)"

definition create_member :: "string option \<Rightarrow> env \<Rightarrow> member_vals \<Rightarrow> error + env" where
  "create_member code s vals = orm_create_member s (create_member_vals code vals)"

text \<open>
  Deleting members: \<open>member_id\<close> of a borrowing record is \<open>ondelete='restrict'\<close>.
\<close>

definition unlink_members :: "env \<Rightarrow> nat list \<Rightarrow> error + env" where
  "unlink_members s ids =
     (if \<exists>r\<in>set (records s). member_id r \<in> set ids then Inl ForeignKey
      else Inr (s\<lparr>members := filter (\<lambda>m. member_key m \<notin> set ids) (members s)\<rparr>))"

section \<open>Books\<close>

record book_vals =
  bv_title :: "string option"
  bv_author :: "string option"
  bv_isbn :: "string option"
  bv_total_copies :: "int option"

definition apply_book_vals :: "book_vals \<Rightarrow> book \<Rightarrow> book" where
  "apply_book_vals v b =
     b\<lparr>title := or_keep (bv_title v) (title b),
       author := or_keep (bv_author v) (author b),
       isbn := or_keep (bv_isbn v) (isbn b),
       total_copies := or_keep (bv_total_copies v) (total_copies b)\<rparr>"

text \<open>\<open>Book._check_isbn_unique\<close>, for one record of the loop, and the SQL constraint.\<close>

definition check_isbn_unique :: "book list \<Rightarrow> book \<Rightarrow> error option" where
  "check_isbn_unique bs b =
     (if isbn b \<noteq> [] then
        (case find (\<lambda>e. isbn e = isbn b \<and> book_key e \<noteq> book_key b) bs of
           Some existing_book \<Rightarrow>
             Some (IsbnExists (isbn b) (title existing_book) (author existing_book))
         | None \<Rightarrow> None)
      else None)"

definition unique_isbn :: "book list \<Rightarrow> bool" where
  "unique_isbn bs \<longleftrightarrow> distinct (map isbn bs)"

text \<open>
  \<open>models.Model.create\<close> and \<open>write\<close> on books (the model overrides neither);
  \<open>available_copies\<close> depends on \<open>total_copies\<close>.
\<close>

definition new_book :: "env \<Rightarrow> book_vals \<Rightarrow> book" where
  "new_book s v =
     (let b = \<lparr>book_key = next_book s, title = the (bv_title v), author = the (bv_author v),
                isbn = the (bv_isbn v), total_copies = or_keep (bv_total_copies v) 1,
                available_copies = 0\<rparr>
      in b\<lparr>available_copies := compute_available_copies (records s) b\<rparr>)"

definition create_book :: "env \<Rightarrow> book_vals \<Rightarrow> error + env" where
  "create_book s v =
     (if bv_title v = None \<or> bv_author v = None \<or> bv_isbn v = None then Inl RequiredMissing
      else
        let b = new_book s v;
            bs = books s @ [b]
        in if \<not> unique_isbn bs then Inl UniqueIsbn
           else
             (case check_isbn_unique bs b of
                Some e \<Rightarrow> Inl e
              | None \<Rightarrow> Inr (s\<lparr>books := bs, next_book := Suc (next_book s)\<rparr>)))"

definition write_books :: "env \<Rightarrow> nat list \<Rightarrow> book_vals \<Rightarrow> error + env" where
  "write_books s ids v =
     (if \<exists>i\<in>set ids. browse_book s i = None then Inl MissingError
      else
        let bs = map (\<lambda>b. if book_key b \<in> set ids then apply_book_vals v b else b) (books s);
            self = filter (\<lambda>b. book_key b \<in> set ids) bs
        in if bv_isbn v \<noteq> None \<and> \<not> unique_isbn bs then Inl UniqueIsbn
           else
             (case (if bv_isbn v \<noteq> None then first_error (check_isbn_unique bs) self else None) of
                Some e \<Rightarrow> Inl e
              | None \<Rightarrow>
                  Inr (if bv_total_copies v \<noteq> None
                       then recompute_books (set ids) (s\<lparr>books := bs\<rparr>)
                       else s\<lparr>books := bs\<rparr>)))"

definition unlink_books :: "env \<Rightarrow> nat list \<Rightarrow> error + env" where
  "unlink_books s ids =
     (if \<exists>r\<in>set (records s). book_id r \<in> set ids then Inl ForeignKey
      else Inr (s\<lparr>books := filter (\<lambda>b. book_key b \<notin> set ids) (books s)\<rparr>))"

section \<open>The reachable databases\<close>

text \<open>
  One call of the module on the database. A call that raises is rolled back by the
  transaction around it: the database after the call is the database before it.
\<close>

datatype op =
    BookCreate book_vals
  | BookWrite "nat list" book_vals
  | BookUnlink "nat list"
  | MemberCreate "string option" member_vals
  | MemberWrite "nat list" member_vals
  | MemberUnlink "nat list"
  | RecordCreate "string option" record_vals
  | RecordWrite "nat list" record_vals
  | RecordUnlink "nat list"
  | ReturnBook nat
  | ExtendDueDate nat
  | UpdateOverdue
  | CronFines

fun call :: "date \<Rightarrow> env \<Rightarrow> op \<Rightarrow> error + env" where
  "call today s (BookCreate v) = create_book s v"
| "call today s (BookWrite ids v) = write_books s ids v"
| "call today s (BookUnlink ids) = unlink_books s ids"
| "call today s (MemberCreate code v) = create_member code s v"
| "call today s (MemberWrite ids v) = write_members s ids v"
| "call today s (MemberUnlink ids) = unlink_members s ids"
| "call today s (RecordCreate code v) = create_record code today s v"
| "call today s (RecordWrite ids v) = write_records today s ids v"
| "call today s (RecordUnlink ids) = unlink_records s ids"
| "call today s (ReturnBook i) = map_sum id fst (action_return_book today s i)"
| "call today s (ExtendDueDate i) = map_sum id fst (action_extend_due_date s i)"
| "call today s UpdateOverdue = update_overdue_records today s"
| "call today s CronFines = Inr (snd (snd (cron_calculate_overdue_fines today s)))"

definition after :: "env \<Rightarrow> error + env \<Rightarrow> env" where
  "after s res = (case res of Inl e \<Rightarrow> s | Inr s' \<Rightarrow> s')"

definition init_env :: env where
  "init_env = \<lparr>books = [], members = [], records = [], next_book = 1, next_member = 1,
     next_record = 1\<rparr>"

inductive reachable :: "env \<Rightarrow> bool" where
  init: "reachable init_env"
| step: "reachable s \<Longrightarrow> call today s c = Inr s' \<Longrightarrow> reachable s'"

section \<open>Example databases\<close>

definition loan :: "nat \<Rightarrow> nat \<Rightarrow> nat \<Rightarrow> date \<Rightarrow> date \<Rightarrow> status \<Rightarrow> borrowing_record" where
  "loan k m b bd ed st =
     \<lparr>record_key = k, sequence = ''BR'', member_id = m, book_id = b, librarian_id = 1,
      borrow_date = bd, expected_return_date = ed, actual_return_date = None, status = st,
      days_overdue = 0, fine_amount = 0, fine_per_day = 5\<rparr>"

text \<open>One book with two copies, one active member, one loan from day 10 due on day 20.\<close>

definition desk :: env where
  "desk = \<lparr>books = [\<lparr>book_key = 1, title = ''Emma'', author = ''Austen'', isbn = ''111'',
                       total_copies = 2, available_copies = 1\<rparr>],
           members = [\<lparr>member_key = 1, member_sequence = ''M1'', name = ''Ann'', email = ''a@x'',
                        phone = ''012'', max_borrow_limit = 10, current_borrowed = 1,
                        member_status = Active\<rparr>],
           records = [loan 1 1 1 10 20 Borrowed],
           next_book = 2, next_member = 2, next_record = 2\<rparr>"

text \<open>The same desk once the loan has been flagged overdue.\<close>

definition late_desk :: env where
  "late_desk = desk\<lparr>records := [loan 1 1 1 10 20 Overdue],
     members := map (\<lambda>m. m\<lparr>current_borrowed := 0\<rparr>) (members desk)\<rparr>"

text \<open>The call \<open>write({'member_status': st})\<close>.\<close>

definition status_vals :: "member_status \<Rightarrow> member_vals" where
  "status_vals st = no_member_vals\<lparr>mv_member_status := Some st\<rparr>"

text \<open>Values of calls and small member tables for the examples.\<close>

definition walk_in :: member_vals where
  "walk_in = no_member_vals\<lparr>mv_name := Some ''Bob'', mv_email := Some ''b@x'',
     mv_phone := Some ''013''\<rparr>"

definition applicant :: member_vals where
  "applicant = walk_in\<lparr>mv_member_status := Some Active\<rparr>"

definition reader :: "int \<Rightarrow> member" where
  "reader n = \<lparr>member_key = 1, member_sequence = ''M1'', name = ''Ann'', email = ''a@x'',
     phone = ''012'', max_borrow_limit = 10, current_borrowed = n, member_status = Active\<rparr>"

definition club :: "int \<Rightarrow> env" where
  "club n = init_env\<lparr>members := [reader n], next_member := 2\<rparr>"

definition lapsed_desk :: env where
  "lapsed_desk = desk\<lparr>members := map (\<lambda>m. m\<lparr>member_status := Inactive, max_borrow_limit := 5\<rparr>)
     (members desk)\<rparr>"

definition newcomer :: member_vals where
  "newcomer = no_member_vals\<lparr>mv_name := Some ''Cy'', mv_email := Some ''c@x'',
     mv_phone := Some ''012''\<rparr>"

text \<open>The only copy of the book is out; in \<open>full_desk\<close> the member's limit is 1 as well.\<close>

definition sold_out_desk :: env where
  "sold_out_desk = desk\<lparr>books := map (\<lambda>b. b\<lparr>total_copies := 1, available_copies := 0\<rparr>) (books desk)\<rparr>"

definition full_desk :: env where
  "full_desk = sold_out_desk\<lparr>members := map (\<lambda>m. m\<lparr>max_borrow_limit := 1\<rparr>) (members desk)\<rparr>"

definition request :: record_vals where
  "request = no_vals\<lparr>v_member_id := Some 1, v_book_id := Some 1, v_librarian_id := Some 1,
     v_expected_return_date := Some 20\<rparr>"

text \<open>
  The stored aggregates agree with their compute methods: the invariant that the
  recomputation triggers maintain.
\<close>

definition books_ok :: "env \<Rightarrow> bool" where
  "books_ok s \<longleftrightarrow>
     (\<forall>b\<in>set (books s). available_copies b = compute_available_copies (records s) b)"

definition members_ok :: "env \<Rightarrow> bool" where
  "members_ok s \<longleftrightarrow>
     (\<forall>m\<in>set (members s). current_borrowed m = compute_current_borrowed (records s) m)"

text \<open>The two counts that the compute methods take, by the key of the book or member.\<close>

definition out_count :: "borrowing_record list \<Rightarrow> nat \<Rightarrow> nat" where
  "out_count rs k =
     length (filter (\<lambda>r. book_id r = k \<and> status r \<in> {Borrowed, Overdue}) rs)"

definition held_count :: "borrowing_record list \<Rightarrow> nat \<Rightarrow> nat" where
  "held_count rs k = length (filter (\<lambda>r. member_id r = k \<and> status r = Borrowed) rs)"

text \<open>The calls that build \<open>desk\<close> from the empty database, and a book entered with a
  negative number of copies.\<close>

definition ann :: member_vals where
  "ann = no_member_vals\<lparr>mv_name := Some ''Ann'', mv_email := Some ''a@x'',
     mv_phone := Some ''012'', mv_member_status := Some Active\<rparr>"

definition emma :: book_vals where
  "emma = \<lparr>bv_title = Some ''Emma'', bv_author = Some ''Austen'', bv_isbn = Some ''111'',
     bv_total_copies = Some 2\<rparr>"

definition flag_overdue :: record_vals where
  "flag_overdue = no_vals\<lparr>v_status := Some Overdue, v_days_overdue := Some 0\<rparr>"

definition written_off :: book_vals where
  "written_off = emma\<lparr>bv_total_copies := Some (- 1)\<rparr>"

definition stock :: "int \<Rightarrow> int \<Rightarrow> book" where
  "stock n k = \<lparr>book_key = 1, title = ''Emma'', author = ''Austen'',
     isbn = ''111'', total_copies = n, available_copies = k\<rparr>"

definition shelf :: env where
  "shelf = init_env\<lparr>books := [stock (- 1) 0], next_book := 2\<rparr>"

text \<open>
  What the fine sweep writes on a record, and the record tables on which it has nothing
  left to do.
\<close>

definition fined :: "date \<Rightarrow> borrowing_record \<Rightarrow> borrowing_record" where
  "fined today r =
     r\<lparr>days_overdue := today - expected_return_date r,
       fine_amount := of_int (today - expected_return_date r) * fine_per_day r\<rparr>"

definition settled :: "date \<Rightarrow> borrowing_record list \<Rightarrow> bool" where
  "settled today rs \<longleftrightarrow>
     (\<forall>r\<in>set rs. expected_return_date r < today \<longrightarrow>
        status r \<noteq> Borrowed \<and>
        (status r = Overdue \<longrightarrow>
           fine_amount r = of_int (today - expected_return_date r) * fine_per_day r \<and>
           days_overdue r = today - expected_return_date r))"

text \<open>
  The desk with a second loan that was flagged overdue earlier and whose fine is out of date.
\<close>

definition busy_desk :: env where
  "busy_desk = desk\<lparr>records := [loan 1 1 1 10 20 Borrowed, loan 2 1 1 5 15 Overdue]\<rparr>"

section \<open>Rows and keys\<close>

lemma find_Some_set: "find P xs = Some x \<Longrightarrow> P x \<and> x \<in> set xs"
  by (induction xs) (auto split: if_splits)

lemma filter_key_single:
  "distinct (map k xs) \<Longrightarrow> find (\<lambda>x. k x = i) xs = Some r \<Longrightarrow> filter (\<lambda>x. k x = i) xs = [r]"
proof (induction xs)
  case Nil
  then show ?case by simp
next
  case (Cons a xs)
  show ?case
  proof (cases "k a = i")
    case True
    with Cons.prems have "a = r" and "\<forall>x\<in>set xs. k x \<noteq> i" by (auto simp: image_iff)
    then show ?thesis using True by (simp add: filter_empty_conv)
  next
    case False
    with Cons show ?thesis by simp
  qed
qed

lemma record_key_apply [simp]: "record_key (apply_record_vals v r) = record_key r"
  by (simp add: apply_record_vals_def)

lemma record_key_refresh [simp]: "record_key (refresh_days_overdue today v r) = record_key r"
  by (simp add: refresh_days_overdue_def)

lemma record_key_written [simp]: "record_key (written today v r) = record_key r"
  by (simp add: written_def)

lemma records_recompute_books [simp]: "records (recompute_books ks s) = records s"
  by (simp add: recompute_books_def)

lemma records_recompute_members [simp]: "records (recompute_members ks s) = records s"
  by (simp add: recompute_members_def)

lemma records_record_triggers [simp]: "records (record_triggers v old new s) = records s"
  by (simp add: record_triggers_def Let_def)

lemma selected_one:
  "distinct (map record_key rs) \<Longrightarrow> find (\<lambda>r. record_key r = i) rs = Some r \<Longrightarrow>
   selected [i] rs = [r]"
  using filter_key_single [of record_key rs i r] by (simp add: selected_def)

lemma selected_assign:
  "selected ids (assign_records today ids v rs) = map (written today v) (selected ids rs)"
  unfolding selected_def assign_records_def by (induction rs) auto

lemma orm_write_records_one:
  assumes d: "distinct (map record_key (records s))"
    and b: "browse_record s i = Some r"
    and fk: "v_member_id v = None" "v_book_id v = None"
    and c: "record_constraints v [written today v r] = None"
  shows "\<exists>s'. orm_write_records today s [i] v = Inr s' \<and>
           records s' = assign_records today [i] v (records s)"
proof -
  have old: "selected [i] (records s) = [r]"
    using selected_one [OF d] b by (simp add: browse_record_def)
  have new: "selected [i] (assign_records today [i] v (records s)) = [written today v r]"
    by (simp add: selected_assign old)
  have fko: "fk_ok s v" using fk by (simp add: fk_ok_def)
  show ?thesis
    using b fko c by (simp add: orm_write_records_def Let_def new)
qed

lemma write_records_one:
  assumes d: "distinct (map record_key (records s))"
    and b: "browse_record s i = Some r"
    and fk: "v_member_id v = None" "v_book_id v = None"
    and c: "record_constraints v [written today v r] = None"
  shows "\<exists>s'. write_records today s [i] v = Inr s' \<and>
           records s' = assign_records today [i] v (records s)"
  using orm_write_records_one [OF assms] by (auto simp: write_records_def)

lemma write_records_reject_one:
  assumes d: "distinct (map record_key (records s))"
    and b: "browse_record s i = Some r"
    and fk: "v_member_id v = None" "v_book_id v = None"
    and c: "record_constraints v [written today v r] = Some e"
  shows "write_records today s [i] v = Inl e"
proof -
  have old: "selected [i] (records s) = [r]"
    using selected_one [OF d] b by (simp add: browse_record_def)
  have new: "selected [i] (assign_records today [i] v (records s)) = [written today v r]"
    by (simp add: selected_assign old)
  have fko: "fk_ok s v" using fk by (simp add: fk_ok_def)
  have "orm_write_records today s [i] v = Inl e"
    using b fko c by (simp add: orm_write_records_def Let_def new)
  then show ?thesis by (simp add: write_records_def)
qed

lemma browse_assigned:
  "browse_record s i = Some r \<Longrightarrow> records s' = assign_records today [i] v (records s) \<Longrightarrow>
   browse_record s' i = Some (written today v r)"
proof -
  have "find (\<lambda>r. record_key r = i) (assign_records today [i] v rs) =
        map_option (written today v) (find (\<lambda>r. record_key r = i) rs)" for rs
    unfolding assign_records_def by (induction rs) auto
  then show "browse_record s i = Some r \<Longrightarrow> records s' = assign_records today [i] v (records s) \<Longrightarrow>
   browse_record s' i = Some (written today v r)"
    by (simp add: browse_record_def)
qed

lemmas eval_defs =
  browse_record_def browse_member_def browse_book_def compute_days_overdue_def
  borrowing_record_ids_def compute_available_copies_def borrowing_ids_def
  compute_current_borrowed_def recompute_books_def recompute_members_def no_vals_def
  or_keep_def apply_record_vals_def days_overdue_stale_def refresh_days_overdue_def
  check_return_date_def check_actual_return_date_def fk_ok_def selected_def written_def
  assign_records_def record_constraints_def record_triggers_def orm_write_records_def
  write_records_def unlink_records_def return_vals_def return_notification_def
  action_return_book_def action_extend_due_date_def Let_def

section \<open>Returning a book\<close>

text \<open>
  Claim C1, as the code has it. Take a borrowing record that is not yet returned, in a
  record table with a primary key, and a reference date \<open>R\<close>. When the borrow date is not
  after \<open>R\<close>, \<open>action_return_book\<close> on \<open>R\<close> succeeds: afterwards
  \<open>days_overdue = max 0 (R - expected_return_date)\<close>,
  \<open>fine_amount = days_overdue * fine_per_day\<close> (so the fine is 0 whenever \<open>R\<close> is not
  after the expected return date), \<open>actual_return_date = R\<close> and \<open>status = returned\<close>;
  the payload has the type \<open>success\<close> and its message holds the fine formatted with two
  decimals. When \<open>R\<close> is before the borrow date, the return is rejected with the validation
  error of \<open>_check_actual_return_date\<close>, and nothing is written.
\<close>

theorem return_book_processed:
  assumes d: "distinct (map record_key (records s))"
    and b: "browse_record s i = Some r"
    and st: "status r \<noteq> Returned"
  shows "(borrow_date r \<le> R \<longrightarrow>
          (\<exists>s' r'. action_return_book R s i
             = Inr (s', return_notification (fine_amount r')) \<and>
           browse_record s' i = Some r' \<and>
           days_overdue r' = max 0 (R - expected_return_date r) \<and>
           fine_amount r' = of_int (days_overdue r') * fine_per_day r \<and>
           (R \<le> expected_return_date r \<longrightarrow> fine_amount r' = 0) \<and>
           actual_return_date r' = Some R \<and> status r' = Returned \<and>
           n_type (return_notification (fine_amount r')) = ''success'' \<and>
           Fixed2 (fine_amount r') \<in> set (n_message (return_notification (fine_amount r'))))) \<and>
         (R < borrow_date r \<longrightarrow>
           action_return_book R s i = Inl ActualReturnBeforeBorrow)"
proof -
  define fine where
    "fine = (if R > expected_return_date r
             then of_int (R - expected_return_date r) * fine_per_day r else 0)"
  define v where "v = return_vals R fine"
  define r' where "r' = written R v r"
  have fields: "actual_return_date r' = Some R" "status r' = Returned" "fine_amount r' = fine"
    "days_overdue r' = max 0 (R - expected_return_date r)" "borrow_date r' = borrow_date r"
    by (simp_all add: r'_def v_def written_def return_vals_def no_vals_def apply_record_vals_def
        refresh_days_overdue_def days_overdue_stale_def or_keep_def compute_days_overdue_def)
  have fk: "v_member_id v = None" "v_book_id v = None"
    by (simp_all add: v_def return_vals_def no_vals_def)
  have accepted: "\<exists>s' r'. action_return_book R s i
             = Inr (s', return_notification (fine_amount r')) \<and>
           browse_record s' i = Some r' \<and>
           days_overdue r' = max 0 (R - expected_return_date r) \<and>
           fine_amount r' = of_int (days_overdue r') * fine_per_day r \<and>
           (R \<le> expected_return_date r \<longrightarrow> fine_amount r' = 0) \<and>
           actual_return_date r' = Some R \<and> status r' = Returned \<and>
           n_type (return_notification (fine_amount r')) = ''success'' \<and>
           Fixed2 (fine_amount r') \<in> set (n_message (return_notification (fine_amount r')))"
    if bd: "borrow_date r \<le> R"
  proof -
    have c: "record_constraints v [written R v r] = None"
      using bd fields unfolding r'_def [symmetric]
      by (simp add: record_constraints_def check_actual_return_date_def v_def return_vals_def
          no_vals_def)
    obtain s' where w: "write_records R s [i] v = Inr s'"
      and rs: "records s' = assign_records R [i] v (records s)"
      using write_records_one [OF d b fk c] by blast
    have b': "browse_record s' i = Some r'"
      using browse_assigned [OF b rs] by (simp add: r'_def)
    have res: "action_return_book R s i = Inr (s', return_notification (fine_amount r'))"
      using b st w
      by (simp add: action_return_book_def Let_def fine_def [symmetric] v_def [symmetric] fields)
    have fa: "fine_amount r' = of_int (days_overdue r') * fine_per_day r"
      by (simp add: fields fine_def)
    show ?thesis
      using res b' fields fa by (auto simp: return_notification_def fine_def)
  qed
  have rejected: "action_return_book R s i = Inl ActualReturnBeforeBorrow"
    if bd: "R < borrow_date r"
  proof -
    have c: "record_constraints v [written R v r] = Some ActualReturnBeforeBorrow"
      using bd fields unfolding r'_def [symmetric]
      by (simp add: record_constraints_def check_actual_return_date_def v_def return_vals_def
          no_vals_def)
    have "write_records R s [i] v = Inl ActualReturnBeforeBorrow"
      by (rule write_records_reject_one [OF d b fk c])
    then show ?thesis
      using b st
      by (simp add: action_return_book_def Let_def fine_def [symmetric] v_def [symmetric])
  qed
  from accepted rejected show ?thesis by blast
qed

text \<open>
  The example of the specification: expected return on day 20, return on day 23 at 5.0 a
  day gives a fine of 15.0 for 3 days. The same loan, borrowed on day 10, cannot be returned
  on day 7.
\<close>

theorem return_book_processed_witness:
  "distinct (map record_key (records desk)) \<and>
   browse_record desk 1 = Some (loan 1 1 1 10 20 Borrowed) \<and>
   status (loan 1 1 1 10 20 Borrowed) \<noteq> Returned \<and>
   borrow_date (loan 1 1 1 10 20 Borrowed) \<le> 23 \<and>
   (\<exists>s' r'. action_return_book 23 desk 1 = Inr (s', return_notification (fine_amount r')) \<and>
      browse_record s' 1 = Some r' \<and> days_overdue r' = 3 \<and> fine_amount r' = 15 \<and>
      actual_return_date r' = Some 23 \<and> status r' = Returned) \<and>
   7 < borrow_date (loan 1 1 1 10 20 Borrowed) \<and>
   action_return_book 7 desk 1 = Inl ActualReturnBeforeBorrow"
proof -
  have d: "distinct (map record_key (records desk))" by (simp add: desk_def loan_def)
  have b: "browse_record desk 1 = Some (loan 1 1 1 10 20 Borrowed)"
    by (simp add: desk_def loan_def browse_record_def)
  have st: "status (loan 1 1 1 10 20 Borrowed) \<noteq> Returned" by (simp add: loan_def)
  have bd: "borrow_date (loan 1 1 1 10 20 Borrowed) \<le> 23" by (simp add: loan_def)
  have early: "7 < borrow_date (loan 1 1 1 10 20 Borrowed)" by (simp add: loan_def)
  from return_book_processed [OF d b st, of 23] bd obtain s' r' where
    "action_return_book 23 desk 1 = Inr (s', return_notification (fine_amount r'))"
    "browse_record s' 1 = Some r'"
    "days_overdue r' = max 0 (23 - expected_return_date (loan 1 1 1 10 20 Borrowed))"
    "fine_amount r' = of_int (days_overdue r') * fine_per_day (loan 1 1 1 10 20 Borrowed)"
    "actual_return_date r' = Some 23" "status r' = Returned"
    by blast
  then have "action_return_book 23 desk 1 = Inr (s', return_notification (fine_amount r')) \<and>
      browse_record s' 1 = Some r' \<and> days_overdue r' = 3 \<and> fine_amount r' = 15 \<and>
      actual_return_date r' = Some 23 \<and> status r' = Returned"
    by (simp add: loan_def)
  moreover from return_book_processed [OF d b st, of 7] early
  have "action_return_book 7 desk 1 = Inl ActualReturnBeforeBorrow" by blast
  ultimately show ?thesis using d b st bd early by blast
qed

text \<open>
  Claim C1 as stated does not hold for every record that is not returned: the write of
  \<open>actual_return_date\<close> runs \<open>_check_actual_return_date\<close>, which rejects a return on a
  day before the borrow date. The loan of \<open>desk\<close> starts on day 10; returning it on day
  5 raises.
\<close>

theorem return_before_borrow_date_fails:
  "browse_record desk 1 = Some (loan 1 1 1 10 20 Borrowed) \<and>
   status (loan 1 1 1 10 20 Borrowed) \<noteq> Returned \<and>
   action_return_book 5 desk 1 = Inl ActualReturnBeforeBorrow"
  by (simp add: desk_def loan_def eval_defs)

section \<open>Extending the due date\<close>

text \<open>
  Claim C10. \<open>action_extend_due_date\<close> raises for a record whose status is not
  \<open>borrowed\<close> (overdue or returned); whenever it returns, the record's status is
  \<open>borrowed\<close>; and it never changes the database, so the due date of an overdue loan
  cannot be extended through it.
\<close>

theorem extend_due_date_borrowed_only:
  "(\<forall>r. browse_record s i = Some r \<and> status r \<noteq> Borrowed \<longrightarrow>
        action_extend_due_date s i = Inl NotBorrowed) \<and>
   (\<forall>x. action_extend_due_date s i = Inr x \<longrightarrow>
        (\<exists>r. browse_record s i = Some r \<and> status r = Borrowed) \<and> fst x = s) \<and>
   after s (map_sum id fst (action_extend_due_date s i)) = s"
  by (auto simp: action_extend_due_date_def after_def split: option.splits if_splits)

theorem extend_due_date_borrowed_only_witness:
  "browse_record late_desk 1 = Some (loan 1 1 1 10 20 Overdue) \<and>
   status (loan 1 1 1 10 20 Overdue) \<noteq> Borrowed \<and>
   action_extend_due_date late_desk 1 = Inl NotBorrowed \<and>
   after late_desk (map_sum id fst (action_extend_due_date late_desk 1)) = late_desk"
proof -
  have b: "browse_record late_desk 1 = Some (loan 1 1 1 10 20 Overdue)"
    by (simp add: late_desk_def desk_def loan_def browse_record_def)
  have st: "status (loan 1 1 1 10 20 Overdue) \<noteq> Borrowed"
    by (simp add: loan_def)
  show ?thesis
    using extend_due_date_borrowed_only [of late_desk 1] b st by blast
qed

section \<open>Deleting a borrowing record\<close>

lemma write_records_records:
  "write_records today s ids v = Inr s' \<Longrightarrow> records s' = assign_records today ids v (records s)"
  by (auto simp: write_records_def orm_write_records_def Let_def
      split: sum.splits if_splits option.splits)

lemma unlink_guard_None:
  "unlink_guard s ids = None \<longleftrightarrow>
     (\<forall>i\<in>set ids. \<exists>r. browse_record s i = Some r \<and> status r = Returned)"
proof (induction ids)
  case Nil
  show ?case by simp
next
  case (Cons i ids)
  show ?case
  proof (cases "browse_record s i")
    case None
    then show ?thesis by simp
  next
    case (Some r)
    with Cons show ?thesis by (cases "status r") auto
  qed
qed

lemma unlink_guard_prefix:
  assumes "\<forall>j\<in>set pre. \<exists>q. browse_record s j = Some q \<and> status q = Returned"
  shows "unlink_guard s (pre @ ids) = unlink_guard s ids"
  using assms by (induction pre) auto

lemma unlink_guard_blocked:
  assumes "\<forall>i\<in>set ids. browse_record s i \<noteq> None"
    and "\<exists>i\<in>set ids. \<exists>r. browse_record s i = Some r \<and> status r \<in> {Borrowed, Overdue}"
  shows "\<exists>q m b st. unlink_guard s ids = Some (Blocked q m b st) \<and> st \<in> {Borrowed, Overdue}"
  using assms
proof (induction ids)
  case Nil
  then show ?case by simp
next
  case (Cons i ids)
  from Cons.prems(1) obtain r where r: "browse_record s i = Some r" by auto
  show ?case
  proof (cases "status r \<in> {Borrowed, Overdue}")
    case True
    with r show ?thesis by auto
  next
    case False
    with r Cons.prems(2)
    have "\<exists>i\<in>set ids. \<exists>r. browse_record s i = Some r \<and> status r \<in> {Borrowed, Overdue}"
      by auto
    moreover from Cons.prems(1) have "\<forall>i\<in>set ids. browse_record s i \<noteq> None" by simp
    ultimately have "\<exists>q m b st. unlink_guard s ids = Some (Blocked q m b st) \<and>
        st \<in> {Borrowed, Overdue}"
      by (rule Cons.IH [rotated])
    with r False show ?thesis by simp
  qed
qed

lemma returned_after_return:
  assumes "action_return_book R s i = Inr (s', n)"
  shows "\<exists>r'. browse_record s' i = Some r' \<and> status r' = Returned"
proof -
  from assms obtain r v where b: "browse_record s i = Some r"
    and w: "write_records R s [i] v = Inr s'" and v: "v_status v = Some Returned"
    by (auto simp: action_return_book_def Let_def return_vals_def no_vals_def
        split: option.splits if_splits sum.splits)
  have "status (written R v r) = Returned"
    using v by (simp add: written_def refresh_days_overdue_def apply_record_vals_def or_keep_def)
  with browse_assigned [OF b write_records_records [OF w]] show ?thesis by simp
qed

lemma browse_removed:
  "records s' = filter (\<lambda>r. record_key r \<notin> set ids) (records s) \<Longrightarrow> i \<in> set ids \<Longrightarrow>
   browse_record s' i = None"
  by (auto simp: browse_record_def find_None_iff)

lemma unlink_returned:
  assumes "\<forall>i\<in>set ids. \<exists>r. browse_record s i = Some r \<and> status r = Returned"
  shows "\<exists>s'. unlink_records s ids = Inr s' \<and>
           records s' = filter (\<lambda>r. record_key r \<notin> set ids) (records s) \<and>
           (\<forall>i\<in>set ids. browse_record s' i = None)"
proof -
  from assms have "unlink_guard s ids = None" by (simp add: unlink_guard_None)
  then obtain s' where u: "unlink_records s ids = Inr s'"
    and rs: "records s' = filter (\<lambda>r. record_key r \<notin> set ids) (records s)"
    by (simp add: unlink_records_def Let_def)
  from browse_removed [OF rs] have "\<forall>i\<in>set ids. browse_record s' i = None" by blast
  with u rs show ?thesis by blast
qed

text \<open>
  Claim C9. \<open>unlink\<close> on borrowing records that all exist raises the blocking error, and
  deletes nothing, whenever one of them has the status \<open>borrowed\<close> or \<open>overdue\<close>. The
  error is that of the first id, in the order of the call, whose record is not returned: the
  blocking error naming that record, or \<open>MissingError\<close> when the id names no row. When all
  the records exist and are returned, \<open>unlink\<close> deletes them. After \<open>action_return_book\<close>
  has returned a record, deleting that record succeeds.
\<close>

theorem unlink_blocked_until_returned:
  "((\<forall>i\<in>set ids. browse_record s i \<noteq> None) \<and>
    (\<exists>i\<in>set ids. \<exists>r. browse_record s i = Some r \<and> status r \<in> {Borrowed, Overdue}) \<longrightarrow>
        (\<exists>q m b st. unlink_records s ids = Inl (Blocked q m b st) \<and> st \<in> {Borrowed, Overdue}) \<and>
        after s (unlink_records s ids) = s) \<and>
   (\<forall>pre i post r. ids = pre @ i # post \<and>
        (\<forall>j\<in>set pre. \<exists>q. browse_record s j = Some q \<and> status q = Returned) \<and>
        browse_record s i = Some r \<and> status r \<in> {Borrowed, Overdue} \<longrightarrow>
        unlink_records s ids
          = Inl (Blocked (sequence r) (member_id r) (book_id r) (status r))) \<and>
   (\<forall>pre i post. ids = pre @ i # post \<and>
        (\<forall>j\<in>set pre. \<exists>q. browse_record s j = Some q \<and> status q = Returned) \<and>
        browse_record s i = None \<longrightarrow>
        unlink_records s ids = Inl MissingError \<and> after s (unlink_records s ids) = s) \<and>
   ((\<forall>i\<in>set ids. \<exists>r. browse_record s i = Some r \<and> status r = Returned) \<longrightarrow>
        (\<exists>s'. unlink_records s ids = Inr s' \<and>
              records s' = filter (\<lambda>r. record_key r \<notin> set ids) (records s) \<and>
              (\<forall>i\<in>set ids. browse_record s' i = None))) \<and>
   (\<forall>R i s' n. action_return_book R s i = Inr (s', n) \<longrightarrow>
        (\<exists>s''. unlink_records s' [i] = Inr s'' \<and> browse_record s'' i = None))"
proof -
  have blocked: "(\<exists>q m b st. unlink_records s ids = Inl (Blocked q m b st) \<and>
          st \<in> {Borrowed, Overdue}) \<and> after s (unlink_records s ids) = s"
    if "(\<forall>i\<in>set ids. browse_record s i \<noteq> None) \<and>
        (\<exists>i\<in>set ids. \<exists>r. browse_record s i = Some r \<and> status r \<in> {Borrowed, Overdue})"
  proof -
    from that unlink_guard_blocked [of ids s] obtain q m b st
      where "unlink_guard s ids = Some (Blocked q m b st)" "st \<in> {Borrowed, Overdue}"
      by blast
    then show ?thesis by (simp add: unlink_records_def after_def)
  qed
  have first_blocked: "unlink_records s ids
          = Inl (Blocked (sequence r) (member_id r) (book_id r) (status r))"
    if "ids = pre @ i # post \<and>
        (\<forall>j\<in>set pre. \<exists>q. browse_record s j = Some q \<and> status q = Returned) \<and>
        browse_record s i = Some r \<and> status r \<in> {Borrowed, Overdue}" for pre i post r
  proof -
    from that have "unlink_guard s ids = unlink_guard s (i # post)"
      using unlink_guard_prefix [of pre s "i # post"] by simp
    with that show ?thesis by (simp add: unlink_records_def)
  qed
  have first_missing: "unlink_records s ids = Inl MissingError \<and>
        after s (unlink_records s ids) = s"
    if "ids = pre @ i # post \<and>
        (\<forall>j\<in>set pre. \<exists>q. browse_record s j = Some q \<and> status q = Returned) \<and>
        browse_record s i = None" for pre i post
  proof -
    from that have "unlink_guard s ids = unlink_guard s (i # post)"
      using unlink_guard_prefix [of pre s "i # post"] by simp
    with that show ?thesis by (simp add: unlink_records_def after_def)
  qed
  have after_return: "\<exists>s''. unlink_records s' [i] = Inr s'' \<and> browse_record s'' i = None"
    if "action_return_book R s i = Inr (s', n)" for R i s' n
  proof -
    from returned_after_return [OF that]
    have "\<forall>j\<in>set [i]. \<exists>r. browse_record s' j = Some r \<and> status r = Returned" by simp
    from unlink_returned [OF this] show ?thesis by auto
  qed
  from blocked first_blocked first_missing unlink_returned [of ids s] after_return
  show ?thesis by blast
qed

text \<open>
  The overdue loan of \<open>late_desk\<close> cannot be deleted; once it has been returned on day 23
  it can. An id that names no row raises \<open>MissingError\<close>.
\<close>

theorem unlink_blocked_until_returned_witness:
  "browse_record late_desk 1 = Some (loan 1 1 1 10 20 Overdue) \<and>
   status (loan 1 1 1 10 20 Overdue) \<in> {Borrowed, Overdue} \<and>
   unlink_records late_desk [1] = Inl (Blocked ''BR'' 1 1 Overdue) \<and>
   after late_desk (unlink_records late_desk [1]) = late_desk \<and>
   browse_record late_desk 99 = None \<and>
   unlink_records late_desk [99] = Inl MissingError \<and>
   (\<exists>s' n s''. action_return_book 23 late_desk 1 = Inr (s', n) \<and>
       unlink_records s' [1] = Inr s'' \<and> browse_record s'' 1 = None)"
proof -
  have b: "browse_record late_desk 1 = Some (loan 1 1 1 10 20 Overdue)"
    by (simp add: late_desk_def desk_def loan_def browse_record_def)
  have st: "status (loan 1 1 1 10 20 Overdue) \<in> {Borrowed, Overdue}"
    by (simp add: loan_def)
  have m: "browse_record late_desk 99 = None"
    by (simp add: late_desk_def desk_def loan_def browse_record_def)
  obtain s' n where ret: "action_return_book 23 late_desk 1 = Inr (s', n)"
    by (simp add: late_desk_def desk_def loan_def eval_defs)
  note one = unlink_blocked_until_returned [of "[1]" late_desk]
  from one b st have "after late_desk (unlink_records late_desk [1]) = late_desk" by auto
  moreover from one b st
  have "unlink_records late_desk [1]
          = Inl (Blocked (sequence (loan 1 1 1 10 20 Overdue)) (member_id (loan 1 1 1 10 20 Overdue))
                  (book_id (loan 1 1 1 10 20 Overdue)) (status (loan 1 1 1 10 20 Overdue)))"
    by (metis append_Nil empty_iff empty_set)
  then have "unlink_records late_desk [1] = Inl (Blocked ''BR'' 1 1 Overdue)"
    by (simp add: loan_def)
  moreover from unlink_blocked_until_returned [of "[99]" late_desk] m
  have "unlink_records late_desk [99] = Inl MissingError"
    by (metis append_Nil empty_iff empty_set)
  moreover from one ret
  have "\<exists>s''. unlink_records s' [1] = Inr s'' \<and> browse_record s'' 1 = None" by blast
  ultimately show ?thesis using b st m ret by blast
qed

section \<open>Members: status and borrow limit\<close>

lemma first_error_None: "first_error chk xs = None \<longleftrightarrow> (\<forall>x\<in>set xs. chk x = None)"
  by (induction xs) (auto split: option.splits)

lemma orm_create_member_members:
  "orm_create_member s v = Inr s' \<Longrightarrow> members s' = members s @ [new_member s v]"
  by (auto simp: orm_create_member_def Let_def split: if_splits option.splits)

lemma orm_write_members_members:
  "orm_write_members s ids v = Inr s' \<Longrightarrow>
   members s' = map (\<lambda>m. if member_key m \<in> set ids then apply_member_vals v m else m) (members s)"
  by (auto simp: orm_write_members_def Let_def split: if_splits option.splits)

text \<open>
  Claim C6, as the code has it. A member created with an explicit status, and every
  member of a write that sets the status, ends with \<open>max_borrow_limit\<close> 10 when the
  status is active and 5 when it is pending or inactive. A member created without a
  status gets the default status active and keeps the limit given in the call, or the
  field's default 5.
\<close>

theorem status_sets_borrow_limit:
  "(\<forall>s' st. create_member code s vals = Inr s' \<and> mv_member_status vals = Some st \<longrightarrow>
       (\<exists>m. members s' = members s @ [m] \<and> member_status m = st \<and>
            max_borrow_limit m = (if st = Active then 10 else 5))) \<and>
   (\<forall>s'. create_member code s vals = Inr s' \<and> mv_member_status vals = None \<longrightarrow>
       (\<exists>m. members s' = members s @ [m] \<and> member_status m = Active \<and>
            max_borrow_limit m = (case mv_max_borrow_limit vals of None \<Rightarrow> 5 | Some n \<Rightarrow> n))) \<and>
   (\<forall>s' st. write_members s ids vals = Inr s' \<and> mv_member_status vals = Some st \<longrightarrow>
       (\<forall>m\<in>set (members s'). member_key m \<in> set ids \<longrightarrow>
            member_status m = st \<and> max_borrow_limit m = (if st = Active then 10 else 5)))"
proof -
  have c3: "member_status m = st \<and> max_borrow_limit m = (if st = Active then 10 else 5)"
    if a: "write_members s ids vals = Inr s' \<and> mv_member_status vals = Some st"
      and m: "m \<in> set (members s')" and k: "member_key m \<in> set ids" for s' st m
  proof -
    from a obtain s1 where o: "orm_write_members s ids vals = Inr s1"
      and s': "s' = s1\<lparr>members := map (\<lambda>m. if member_key m \<in> set ids
                   then m\<lparr>max_borrow_limit := limit_of_status (member_status m)\<rparr> else m) (members s1)\<rparr>"
      by (auto simp: write_members_def split: sum.splits)
    from m k s' obtain m1 where m1: "m1 \<in> set (members s1)" "member_key m1 \<in> set ids"
      and mm: "m = m1\<lparr>max_borrow_limit := limit_of_status (member_status m1)\<rparr>"
      by (auto split: if_splits)
    from m1 orm_write_members_members [OF o] obtain m0
      where "m1 = apply_member_vals vals m0 \<or> m1 = m0 \<and> member_key m0 \<notin> set ids"
      by (auto split: if_splits)
    with m1 have "member_status m1 = st"
      using a by (auto simp: apply_member_vals_def or_keep_def)
    with mm show ?thesis
      by (cases st) (simp_all add: limit_of_status_def)
  qed
  show ?thesis
  proof (intro conjI allI impI ballI)
    show "member_status m = st" 
      if "write_members s ids vals = Inr s' \<and> mv_member_status vals = Some st"
        "m \<in> set (members s')" "member_key m \<in> set ids" for s' st m
      using c3 [OF that] by simp
    show "max_borrow_limit m = (if st = Active then 10 else 5)" 
      if "write_members s ids vals = Inr s' \<and> mv_member_status vals = Some st"
        "m \<in> set (members s')" "member_key m \<in> set ids" for s' st m
      using c3 [OF that] by simp
  next
  fix s' st
  assume a: "create_member code s vals = Inr s' \<and> mv_member_status vals = Some st"
  then have "members s' = members s @ [new_member s (create_member_vals code vals)]"
    by (simp add: create_member_def orm_create_member_members)
  moreover have "member_status (new_member s (create_member_vals code vals)) = st"
    "max_borrow_limit (new_member s (create_member_vals code vals)) = (if st = Active then 10 else 5)"
    using a by (cases st; simp add: new_member_def create_member_vals_def Let_def or_keep_def)+
  ultimately show "\<exists>m. members s' = members s @ [m] \<and> member_status m = st \<and>
            max_borrow_limit m = (if st = Active then 10 else 5)" by blast
next
  fix s'
  assume a: "create_member code s vals = Inr s' \<and> mv_member_status vals = None"
  then have "members s' = members s @ [new_member s (create_member_vals code vals)]"
    by (simp add: create_member_def orm_create_member_members)
  moreover have "member_status (new_member s (create_member_vals code vals)) = Active"
    "max_borrow_limit (new_member s (create_member_vals code vals))
       = (case mv_max_borrow_limit vals of None \<Rightarrow> 5 | Some n \<Rightarrow> n)"
    using a by (simp_all add: new_member_def create_member_vals_def Let_def or_keep_def)
  ultimately show "\<exists>m. members s' = members s @ [m] \<and> member_status m = Active \<and>
            max_borrow_limit m = (case mv_max_borrow_limit vals of None \<Rightarrow> 5 | Some n \<Rightarrow> n)"
    by blast
qed
qed

text \<open>
  Claim C6 as stated also covers a member whose active status is the default. \<open>create\<close>
  reads \<open>vals.get('member_status')\<close>, which is empty then, so the limit stays at the
  default 5 although the member is active.
\<close>

theorem default_status_keeps_default_limit:
  "mv_member_status walk_in = None \<and>
   create_member (Some ''M0001'') init_env walk_in =
     Inr \<lparr>books = [],
          members = [\<lparr>member_key = 1, member_sequence = ''M0001'', name = ''Bob'', email = ''b@x'',
                       phone = ''013'', max_borrow_limit = 5, current_borrowed = 0,
                       member_status = Active\<rparr>],
          records = [], next_book = 1, next_member = 2, next_record = 1\<rparr>"
  by (simp add: walk_in_def no_member_vals_def init_env_def create_member_def
      create_member_vals_def orm_create_member_def new_member_def unique_phone_def
      check_phone_unique_def check_status_change_borrowing_limit_def next_or_new_def
      compute_current_borrowed_def borrowing_ids_def or_keep_def Let_def)


theorem status_sets_borrow_limit_witness:
  "mv_member_status applicant = Some Active \<and>
   (\<exists>s' m. create_member (Some ''M0001'') init_env applicant = Inr s' \<and>
      members s' = members init_env @ [m] \<and> member_status m = Active \<and>
      max_borrow_limit m = 10)"
proof -
  have st: "mv_member_status applicant = Some Active"
    by (simp add: applicant_def)
  obtain s' where c: "create_member (Some ''M0001'') init_env applicant = Inr s'"
    by (simp add: applicant_def walk_in_def no_member_vals_def init_env_def create_member_def
      create_member_vals_def orm_create_member_def new_member_def unique_phone_def
      check_phone_unique_def check_status_change_borrowing_limit_def next_or_new_def
      compute_current_borrowed_def borrowing_ids_def or_keep_def Let_def)
  from status_sets_borrow_limit [of "Some ''M0001''" init_env applicant] c st
  obtain m where "members s' = members init_env @ [m]" "member_status m = Active"
    "max_borrow_limit m = (if Active = Active then 10 else 5)"
    by blast
  then show ?thesis using st c by auto
qed

section \<open>Members: changing the status with books out\<close>

lemma selected_member_one:
  assumes "distinct (map member_key ms)" "find (\<lambda>m. member_key m = i) ms = Some m"
  shows "filter (\<lambda>x. member_key x \<in> set [i])
           (map (\<lambda>x. if member_key x \<in> set [i] then apply_member_vals v x else x) ms)
         = [apply_member_vals v m]"
proof -
  have k: "member_key (apply_member_vals v x) = member_key x" for x
    by (simp add: apply_member_vals_def)
  have "filter (\<lambda>x. member_key x = i)
           (map (\<lambda>x. if member_key x = i then apply_member_vals v x else x) ms)
        = map (apply_member_vals v) (filter (\<lambda>x. member_key x = i) ms)"
    by (induction ms) (auto simp: k)
  then show ?thesis
    using filter_key_single [OF assms] by simp
qed

text \<open>
  Claim C7. Writing the status \<open>inactive\<close> or \<open>pending\<close> (and nothing else) on a member
  raises the constraint violation exactly when the member's \<open>current_borrowed\<close> is above
  5: with 6 it fails and the database is unchanged, with 5 it succeeds and the member ends
  with the new status and \<open>max_borrow_limit = 5\<close>. The member table has a primary key.
\<close>

theorem status_change_blocked_above_five:
  assumes d: "distinct (map member_key (members s))"
    and b: "browse_member s i = Some m"
    and st: "st \<in> {Inactive, Pending}"
  shows "write_members s [i] (status_vals st) =
           (if current_borrowed m > 5
            then Inl (StatusChangeBlocked st (name m) (current_borrowed m))
            else Inr (s\<lparr>members := map (\<lambda>x. if member_key x = i
                         then x\<lparr>max_borrow_limit := 5, member_status := st\<rparr> else x) (members s)\<rparr>)) \<and>
         (isl (write_members s [i] (status_vals st)) \<longleftrightarrow> current_borrowed m > 5) \<and>
         (current_borrowed m > 5 \<longrightarrow> after s (write_members s [i] (status_vals st)) = s)"
proof -
  let ?v = "status_vals st"
  have sel: "filter (\<lambda>x. member_key x \<in> set [i])
           (map (\<lambda>x. if member_key x \<in> set [i] then apply_member_vals ?v x else x) (members s))
         = [apply_member_vals ?v m]"
    using selected_member_one [OF d] b by (simp add: browse_member_def)
  have ex: "\<not> (\<exists>j\<in>set [i]. browse_member s j = None)" using b by simp
  have am: "apply_member_vals ?v x = x\<lparr>member_status := st\<rparr>" for x
    by (simp add: apply_member_vals_def status_vals_def no_member_vals_def or_keep_def)
  have vs: "mv_phone ?v = None" "mv_member_status ?v = Some st"
    by (simp_all add: status_vals_def no_member_vals_def)
  have orm: "orm_write_members s [i] ?v =
      (if current_borrowed m > 5
       then Inl (StatusChangeBlocked st (name m) (current_borrowed m))
       else Inr (s\<lparr>members := map (\<lambda>x. if member_key x \<in> set [i]
                       then apply_member_vals ?v x else x) (members s)\<rparr>))"
    unfolding orm_write_members_def Let_def sel
    using ex st
    by (auto simp: vs check_status_change_borrowing_limit_def am simp del: set_simps)
  have mapeq: "map (\<lambda>m. if member_key m \<in> set [i]
                 then m\<lparr>max_borrow_limit := limit_of_status (member_status m)\<rparr> else m)
          (map (\<lambda>x. if member_key x \<in> set [i] then apply_member_vals ?v x else x) (members s))
        = map (\<lambda>x. if member_key x = i
                 then x\<lparr>max_borrow_limit := 5, member_status := st\<rparr> else x) (members s)"
    using st by (auto simp: am limit_of_status_def)
  have eq: "write_members s [i] ?v =
           (if current_borrowed m > 5
            then Inl (StatusChangeBlocked st (name m) (current_borrowed m))
            else Inr (s\<lparr>members := map (\<lambda>x. if member_key x = i
                         then x\<lparr>max_borrow_limit := 5, member_status := st\<rparr> else x) (members s)\<rparr>))"
    unfolding write_members_def orm using mapeq by (simp add: vs del: set_simps)
  show ?thesis
    unfolding eq by (simp add: after_def)
qed


lemmas member_eval_defs =
  browse_member_def no_member_vals_def apply_member_vals_def check_phone_unique_def
  check_status_change_borrowing_limit_def unique_phone_def limit_of_status_def
  orm_write_members_def write_members_def new_member_def orm_create_member_def
  create_member_vals_def create_member_def next_or_new_def compute_current_borrowed_def
  borrowing_ids_def or_keep_def Let_def

theorem status_change_blocked_above_five_witness:
  "distinct (map member_key (members (club 6))) \<and>
   browse_member (club 6) 1 = Some (reader 6) \<and>
   Inactive \<in> {Inactive, Pending} \<and>
   current_borrowed (reader 6) > 5 \<and>
   write_members (club 6) [1] (status_vals Inactive) = Inl (StatusChangeBlocked Inactive ''Ann'' 6) \<and>
   after (club 6) (write_members (club 6) [1] (status_vals Inactive)) = club 6 \<and>
   write_members (club 5) [1] (status_vals Inactive) =
     Inr (club 5\<lparr>members := [(reader 5)\<lparr>max_borrow_limit := 5, member_status := Inactive\<rparr>]\<rparr>)"
proof -
  have d: "distinct (map member_key (members (club n)))" for n
    by (simp add: club_def init_env_def)
  have b: "browse_member (club n) 1 = Some (reader n)" for n
    by (simp add: club_def init_env_def browse_member_def reader_def)
  have st: "Inactive \<in> {Inactive, Pending}" by simp
  have six: "current_borrowed (reader 6) > 5" by (simp add: reader_def)
  note w6 = status_change_blocked_above_five [OF d b st, of 6]
  note w5 = status_change_blocked_above_five [OF d b st, of 5]
  have "write_members (club 6) [1] (status_vals Inactive) = Inl (StatusChangeBlocked Inactive ''Ann'' 6)"
    using w6 by (simp add: reader_def)
  moreover have "after (club 6) (write_members (club 6) [1] (status_vals Inactive)) = club 6"
    using w6 six by blast
  moreover have "write_members (club 5) [1] (status_vals Inactive) =
     Inr (club 5\<lparr>members := [(reader 5)\<lparr>max_borrow_limit := 5, member_status := Inactive\<rparr>]\<rparr>)"
    using w5 by (simp add: reader_def club_def init_env_def)
  ultimately show ?thesis using d b st six by blast
qed

section \<open>Members: phone numbers\<close>

text \<open>
  Claim C8 at the input where the code departs from it. The only member of
  \<open>lapsed_desk\<close> is inactive and has the phone number 012. Creating a member with that
  number passes \<open>_check_phone_unique\<close>, which skips inactive members, and is still
  rejected, by the SQL constraint \<open>unique_phone\<close>.
\<close>

theorem inactive_phone_not_reusable:
  "map member_status (members lapsed_desk) = [Inactive] \<and>
   map phone (members lapsed_desk) = [''012''] \<and>
   mv_phone newcomer = Some ''012'' \<and>
   check_phone_unique
     (members lapsed_desk @ [new_member lapsed_desk (create_member_vals (Some ''M2'') newcomer)])
     (new_member lapsed_desk (create_member_vals (Some ''M2'') newcomer)) = None \<and>
   create_member (Some ''M2'') lapsed_desk newcomer = Inl UniquePhone"
  by (simp add: lapsed_desk_def desk_def newcomer_def member_eval_defs)

section \<open>Creating a borrowing record\<close>

text \<open>
  Claim C2, as the code has it. \<open>create\<close> checks the member first: when the number of
  the member's records with status \<open>borrowed\<close> in the database is not below the member's
  \<open>max_borrow_limit\<close>, it raises the error naming the member and the limit. When that
  check passes and the book's \<open>available_copies\<close> is below 1, it raises the error naming
  the book. In both cases the database is unchanged.
\<close>

theorem create_record_rejected:
  "(\<forall>m member. vals_get_key (v_member_id vals) = Some m \<and> browse_member s m = Some member \<and>
        \<not> search_count_borrowed s m < max_borrow_limit member \<longrightarrow>
        create_record code today s vals
          = Inl (LimitExceeded (name member) (max_borrow_limit member)) \<and>
        after s (create_record code today s vals) = s) \<and>
   (\<forall>m member b book. vals_get_key (v_member_id vals) = Some m \<and>
        browse_member s m = Some member \<and>
        search_count_borrowed s m < max_borrow_limit member \<and>
        vals_get_key (v_book_id vals) = Some b \<and> browse_book s b = Some book \<and>
        available_copies book < 1 \<longrightarrow>
        create_record code today s vals = Inl (Unavailable (title book)) \<and>
        after s (create_record code today s vals) = s)"
  by (auto simp: create_record_def validate_borrow_limit_def validate_availability_def
      after_def Let_def)

lemmas create_eval_defs =
  next_or_new_def vals_get_key_def search_count_borrowed_def validate_borrow_limit_def
  validate_availability_def overdue_on_create_def new_record_def orm_create_record_def
  create_record_def

theorem create_record_rejected_witness:
  "vals_get_key (v_member_id request) = Some 1 \<and>
   browse_member full_desk 1 = Some ((reader 1)\<lparr>max_borrow_limit := 1\<rparr>) \<and>
   \<not> search_count_borrowed full_desk 1 < max_borrow_limit ((reader 1)\<lparr>max_borrow_limit := 1\<rparr>) \<and>
   create_record None 15 full_desk request = Inl (LimitExceeded ''Ann'' 1) \<and>
   after full_desk (create_record None 15 full_desk request) = full_desk \<and>
   browse_member sold_out_desk 1 = Some (reader 1) \<and>
   search_count_borrowed sold_out_desk 1 < max_borrow_limit (reader 1) \<and>
   vals_get_key (v_book_id request) = Some 1 \<and>
   browse_book sold_out_desk 1
     = Some \<lparr>book_key = 1, title = ''Emma'', author = ''Austen'', isbn = ''111'',
             total_copies = 1, available_copies = 0\<rparr> \<and>
   create_record None 15 sold_out_desk request = Inl (Unavailable ''Emma'') \<and>
   after sold_out_desk (create_record None 15 sold_out_desk request) = sold_out_desk"
proof -
  let ?emma = "\<lparr>book_key = 1, title = ''Emma'', author = ''Austen'', isbn = ''111'',
             total_copies = 1, available_copies = 0\<rparr>"
  have h: "vals_get_key (v_member_id request) = Some 1 \<and>
     browse_member full_desk 1 = Some ((reader 1)\<lparr>max_borrow_limit := 1\<rparr>) \<and>
     \<not> search_count_borrowed full_desk 1 < max_borrow_limit ((reader 1)\<lparr>max_borrow_limit := 1\<rparr>)"
    by (simp add: request_def full_desk_def sold_out_desk_def desk_def loan_def reader_def
        no_vals_def vals_get_key_def browse_member_def search_count_borrowed_def)
  have g: "vals_get_key (v_member_id request) = Some 1 \<and>
     browse_member sold_out_desk 1 = Some (reader 1) \<and>
     search_count_borrowed sold_out_desk 1 < max_borrow_limit (reader 1) \<and>
     vals_get_key (v_book_id request) = Some 1 \<and> browse_book sold_out_desk 1 = Some ?emma \<and>
     available_copies ?emma < 1"
    by (simp add: request_def sold_out_desk_def desk_def loan_def reader_def
        no_vals_def vals_get_key_def browse_member_def browse_book_def search_count_borrowed_def)
  from create_record_rejected [of request full_desk None 15] h
  have "create_record None 15 full_desk request
          = Inl (LimitExceeded (name ((reader 1)\<lparr>max_borrow_limit := 1\<rparr>))
                   (max_borrow_limit ((reader 1)\<lparr>max_borrow_limit := 1\<rparr>))) \<and>
        after full_desk (create_record None 15 full_desk request) = full_desk"
    by blast
  then have full: "create_record None 15 full_desk request = Inl (LimitExceeded ''Ann'' 1) \<and>
        after full_desk (create_record None 15 full_desk request) = full_desk"
    by (simp add: reader_def after_def)
  from create_record_rejected [of request sold_out_desk None 15] g
  have "create_record None 15 sold_out_desk request = Inl (Unavailable (title ?emma)) \<and>
        after sold_out_desk (create_record None 15 sold_out_desk request) = sold_out_desk"
    by blast
  then have sold: "create_record None 15 sold_out_desk request = Inl (Unavailable ''Emma'') \<and>
        after sold_out_desk (create_record None 15 sold_out_desk request) = sold_out_desk"
    by (simp add: after_def)
  show ?thesis using h g full sold by blast
qed

text \<open>
  Claim C2 as stated promises the error naming the book whenever no copy is available.
  In \<open>full_desk\<close> no copy is available and the member is at the limit: the error names
  the member.
\<close>

theorem limit_error_precedes_unavailable:
  "browse_book full_desk 1
     = Some \<lparr>book_key = 1, title = ''Emma'', author = ''Austen'', isbn = ''111'',
             total_copies = 1, available_copies = 0\<rparr> \<and>
   create_record None 15 full_desk request = Inl (LimitExceeded ''Ann'' 1) \<and>
   create_record None 15 full_desk request \<noteq> Inl (Unavailable ''Emma'')"
  by (simp add: request_def full_desk_def sold_out_desk_def desk_def loan_def no_vals_def
      browse_book_def browse_member_def create_eval_defs)

section \<open>The aggregates in every reachable database\<close>

lemma compute_available_copies_out:
  "compute_available_copies rs b = max 0 (total_copies b - int (out_count rs (book_key b)))"
  by (simp add: compute_available_copies_def borrowing_record_ids_def out_count_def Let_def
      conj_commute)

lemma compute_current_borrowed_held:
  "compute_current_borrowed rs m = int (held_count rs (member_key m))"
  by (simp add: compute_current_borrowed_def borrowing_ids_def held_count_def conj_commute)

lemma length_filter_map_same:
  "(\<And>r. r \<in> set rs \<Longrightarrow> P (f r) = P r) \<Longrightarrow> length (filter P (map f rs)) = length (filter P rs)"
  by (induction rs) auto

lemma filter_filter_same:
  "(\<And>r. r \<in> set rs \<Longrightarrow> P r \<Longrightarrow> Q r) \<Longrightarrow> filter P (filter Q rs) = filter P rs"
  by (induction rs) auto

lemma books_ok_recompute:
  assumes "\<And>b. b \<in> set (books s) \<Longrightarrow> book_key b \<notin> K \<Longrightarrow>
             available_copies b = compute_available_copies (records s) b"
  shows "books_ok (recompute_books K s)"
  using assms
  by (auto simp: books_ok_def recompute_books_def compute_available_copies_out)

lemma members_ok_recompute:
  assumes "\<And>m. m \<in> set (members s) \<Longrightarrow> member_key m \<notin> K \<Longrightarrow>
             current_borrowed m = compute_current_borrowed (records s) m"
  shows "members_ok (recompute_members K s)"
  using assms
  by (auto simp: members_ok_def recompute_members_def compute_current_borrowed_held)

lemma books_recompute_members [simp]: "books (recompute_members K s) = books s"
  by (simp add: recompute_members_def)

lemma members_recompute_books [simp]: "members (recompute_books K s) = members s"
  by (simp add: recompute_books_def)

lemma books_ok_recompute_members [simp]: "books_ok (recompute_members K s) = books_ok s"
  by (simp add: books_ok_def)

lemma members_ok_recompute_books [simp]: "members_ok (recompute_books K s) = members_ok s"
  by (simp add: members_ok_def)

lemma books_ok_step:
  assumes "books_ok s" "books s1 = books s"
    and "\<And>k. k \<notin> K \<Longrightarrow> out_count (records s1) k = out_count (records s) k"
  shows "books_ok (recompute_books K s1)"
proof (rule books_ok_recompute)
  fix b assume "b \<in> set (books s1)" "book_key b \<notin> K"
  with assms show "available_copies b = compute_available_copies (records s1) b"
    by (simp add: books_ok_def compute_available_copies_out)
qed

lemma members_ok_step:
  assumes "members_ok s" "members s1 = members s"
    and "\<And>k. k \<notin> K \<Longrightarrow> held_count (records s1) k = held_count (records s) k"
  shows "members_ok (recompute_members K s1)"
proof (rule members_ok_recompute)
  fix m assume "m \<in> set (members s1)" "member_key m \<notin> K"
  with assms show "current_borrowed m = compute_current_borrowed (records s1) m"
    by (simp add: members_ok_def compute_current_borrowed_held)
qed

lemma books_ok_keep:
  assumes "books_ok s" "books s1 = books s"
    and "\<And>k. out_count (records s1) k = out_count (records s) k"
  shows "books_ok s1"
  using assms by (simp add: books_ok_def compute_available_copies_out)

lemma members_ok_keep:
  assumes "members_ok s" "members s1 = members s"
    and "\<And>k. held_count (records s1) k = held_count (records s) k"
  shows "members_ok s1"
  using assms by (simp add: members_ok_def compute_current_borrowed_held)

lemma members_ok_recompute_again:
  "members_ok s \<Longrightarrow> members_ok (recompute_members K s)"
  by (rule members_ok_recompute) (simp add: members_ok_def)

subsection \<open>Writing borrowing records\<close>

lemma written_fields:
  "book_id (written today v r) = or_keep (v_book_id v) (book_id r)"
  "member_id (written today v r) = or_keep (v_member_id v) (member_id r)"
  "status (written today v r) = or_keep (v_status v) (status r)"
  by (simp_all add: written_def refresh_days_overdue_def apply_record_vals_def)

lemma out_count_assign_other:
  assumes "k \<notin> book_id ` set (selected ids rs) \<union>
               book_id ` set (selected ids (assign_records today ids v rs))"
  shows "out_count (assign_records today ids v rs) k = out_count rs k"
  unfolding out_count_def assign_records_def
proof (rule length_filter_map_same)
  fix r assume r: "r \<in> set rs"
  show "(book_id (if record_key r \<in> set ids then written today v r else r) = k \<and>
         status (if record_key r \<in> set ids then written today v r else r) \<in> {Borrowed, Overdue})
        = (book_id r = k \<and> status r \<in> {Borrowed, Overdue})"
  proof (cases "record_key r \<in> set ids")
    case True
    with r have "r \<in> set (selected ids rs)" by (simp add: selected_def)
    then have "book_id r \<noteq> k" "book_id (written today v r) \<noteq> k"
      using assms by (auto simp: selected_assign)
    with True show ?thesis by simp
  next
    case False
    then show ?thesis by simp
  qed
qed

lemma held_count_assign_other:
  assumes "k \<notin> member_id ` set (selected ids rs) \<union>
               member_id ` set (selected ids (assign_records today ids v rs))"
  shows "held_count (assign_records today ids v rs) k = held_count rs k"
  unfolding held_count_def assign_records_def
proof (rule length_filter_map_same)
  fix r assume r: "r \<in> set rs"
  show "(member_id (if record_key r \<in> set ids then written today v r else r) = k \<and>
         status (if record_key r \<in> set ids then written today v r else r) = Borrowed)
        = (member_id r = k \<and> status r = Borrowed)"
  proof (cases "record_key r \<in> set ids")
    case True
    with r have "r \<in> set (selected ids rs)" by (simp add: selected_def)
    then have "member_id r \<noteq> k" "member_id (written today v r) \<noteq> k"
      using assms by (auto simp: selected_assign)
    with True show ?thesis by simp
  next
    case False
    then show ?thesis by simp
  qed
qed

lemma out_count_assign_same:
  assumes "v_status v = None" "v_book_id v = None"
  shows "out_count (assign_records today ids v rs) k = out_count rs k"
  unfolding out_count_def assign_records_def
  by (rule length_filter_map_same) (simp add: written_fields assms or_keep_def)

lemma held_count_assign_same:
  assumes "v_status v = None" "v_member_id v = None"
  shows "held_count (assign_records today ids v rs) k = held_count rs k"
  unfolding held_count_def assign_records_def
  by (rule length_filter_map_same) (simp add: written_fields assms or_keep_def)

lemma orm_write_records_ok:
  assumes ok: "books_ok s" "members_ok s"
    and w: "orm_write_records today s ids v = Inr s'"
  shows "books_ok s' \<and> members_ok s'"
proof -
  let ?rs = "assign_records today ids v (records s)"
  let ?old = "selected ids (records s)"
  let ?new = "selected ids ?rs"
  let ?s0 = "s\<lparr>records := ?rs\<rparr>"
  let ?KB = "book_id ` set ?old \<union> book_id ` set ?new"
  let ?KM = "member_id ` set ?old \<union> member_id ` set ?new"
  let ?s1 = "if v_status v \<noteq> None \<or> v_book_id v \<noteq> None then recompute_books ?KB ?s0 else ?s0"
  from w have s': "s' = (if v_status v \<noteq> None \<or> v_member_id v \<noteq> None
                         then recompute_members ?KM ?s1 else ?s1)"
    by (auto simp: orm_write_records_def record_triggers_def Let_def
        split: if_splits option.splits)
  have b: "books_ok ?s1"
  proof (cases "v_status v \<noteq> None \<or> v_book_id v \<noteq> None")
    case True
    have "books_ok (recompute_books ?KB ?s0)"
      by (rule books_ok_step [OF ok(1)]) (simp_all add: out_count_assign_other)
    with True show ?thesis by simp
  next
    case False
    have "books_ok ?s0"
      by (rule books_ok_keep [OF ok(1)]) (use False in \<open>simp_all add: out_count_assign_same\<close>)
    with False show ?thesis by simp
  qed
  have s1: "members ?s1 = members s" "records ?s1 = ?rs"
    by simp_all
  have m: "members_ok (if v_status v \<noteq> None \<or> v_member_id v \<noteq> None
                         then recompute_members ?KM ?s1 else ?s1)"
  proof (cases "v_status v \<noteq> None \<or> v_member_id v \<noteq> None")
    case True
    have "members_ok (recompute_members ?KM ?s1)"
      by (rule members_ok_step [OF ok(2) s1(1)])
        (simp only: s1, rule held_count_assign_other, assumption)
    with True show ?thesis by simp
  next
    case False
    have "members_ok ?s1"
      by (rule members_ok_keep [OF ok(2) s1(1)])
        (simp only: s1, rule held_count_assign_same, use False in simp_all)
    with False show ?thesis by simp
  qed
  have "books_ok s'"
    unfolding s' using b by (auto split: if_splits)
  moreover have "members_ok s'"
    unfolding s' using m by simp
  ultimately show ?thesis by simp
qed

lemma write_records_ok:
  assumes "books_ok s" "members_ok s" "write_records today s ids v = Inr s'"
  shows "books_ok s' \<and> members_ok s'"
proof -
  from assms(3) obtain s1 where o: "orm_write_records today s ids v = Inr s1"
    and s': "s' = s1 \<or> (\<exists>K. s' = recompute_members K s1)"
    by (auto simp: write_records_def split: sum.splits if_splits)
  from orm_write_records_ok [OF assms(1,2) o] s' show ?thesis
    by (auto simp: members_ok_recompute_again)
qed

subsection \<open>Creating and deleting borrowing records\<close>

lemma orm_create_record_ok:
  assumes ok: "books_ok s" "members_ok s"
    and c: "orm_create_record today s v = Inr s'"
  shows "books_ok s' \<and> members_ok s'"
proof -
  let ?r = "new_record today (next_record s) v"
  let ?s0 = "s\<lparr>records := records s @ [?r], next_record := Suc (next_record s)\<rparr>"
  from c have s': "s' = recompute_members {member_id ?r} (recompute_books {book_id ?r} ?s0)"
    by (auto simp: orm_create_record_def Let_def split: if_splits)
  have "books_ok (recompute_books {book_id ?r} ?s0)"
    by (rule books_ok_step [OF ok(1)]) (simp_all add: out_count_def)
  moreover have "members_ok (recompute_members {member_id ?r} (recompute_books {book_id ?r} ?s0))"
    by (rule members_ok_step [OF ok(2)]) (simp_all add: held_count_def)
  ultimately show ?thesis by (simp add: s')
qed

lemma create_record_ok:
  assumes "books_ok s" "members_ok s" "create_record code today s v = Inr s'"
  shows "books_ok s' \<and> members_ok s'"
proof -
  from assms(3) obtain s1 v1 K where "orm_create_record today s v1 = Inr s1"
    and "s' = recompute_members K s1"
    by (auto simp: create_record_def Let_def split: option.splits sum.splits)
  with orm_create_record_ok [OF assms(1,2)] show ?thesis
    by (auto simp: members_ok_recompute_again)
qed

lemma unlink_records_ok:
  assumes ok: "books_ok s" "members_ok s"
    and u: "unlink_records s ids = Inr s'"
  shows "books_ok s' \<and> members_ok s'"
proof -
  let ?self = "selected ids (records s)"
  let ?rs = "filter (\<lambda>r. record_key r \<notin> set ids) (records s)"
  let ?s0 = "s\<lparr>records := ?rs\<rparr>"
  from u have s': "s' = recompute_members (member_id ` set ?self)
                          (recompute_books (book_id ` set ?self) ?s0)"
    by (auto simp: unlink_records_def Let_def split: option.splits)
  have out: "out_count ?rs k = out_count (records s) k" if "k \<notin> book_id ` set ?self" for k
    unfolding out_count_def
    by (rule arg_cong [where f = length], rule filter_filter_same)
      (use that in \<open>auto simp: selected_def\<close>)
  have held: "held_count ?rs k = held_count (records s) k" if "k \<notin> member_id ` set ?self" for k
    unfolding held_count_def
    by (rule arg_cong [where f = length], rule filter_filter_same)
      (use that in \<open>auto simp: selected_def\<close>)
  have "books_ok (recompute_books (book_id ` set ?self) ?s0)"
    by (rule books_ok_step [OF ok(1)]) (simp_all add: out)
  moreover have "members_ok (recompute_members (member_id ` set ?self)
                          (recompute_books (book_id ` set ?self) ?s0))"
    by (rule members_ok_step [OF ok(2)]) (simp_all add: held)
  ultimately show ?thesis by (simp add: s')
qed

subsection \<open>The batch jobs\<close>

lemma transition_loop_ok:
  "books_ok s \<Longrightarrow> members_ok s \<Longrightarrow>
   books_ok (snd (snd (transition_loop today s t ids))) \<and>
   members_ok (snd (snd (transition_loop today s t ids)))"
proof (induction ids arbitrary: s t)
  case Nil
  then show ?case by simp
next
  case (Cons i ids)
  then show ?case
    by (auto simp: Let_def split: option.splits sum.splits dest: write_records_ok)
qed

lemma refresh_loop_ok:
  "books_ok s \<Longrightarrow> members_ok s \<Longrightarrow>
   books_ok (snd (snd (refresh_loop today s t ids))) \<and>
   members_ok (snd (snd (refresh_loop today s t ids)))"
proof (induction ids arbitrary: s t)
  case Nil
  then show ?case by simp
next
  case (Cons i ids)
  then show ?case
    by (auto simp: Let_def split: option.splits sum.splits dest: write_records_ok)
qed

lemma cron_ok:
  assumes "books_ok s" "members_ok s"
  shows "books_ok (snd (snd (cron_calculate_overdue_fines today s))) \<and>
         members_ok (snd (snd (cron_calculate_overdue_fines today s)))"
proof -
  let ?ids = "search_records (\<lambda>r. status r = Borrowed \<and> expected_return_date r < today) s"
  let ?t0 = "\<lparr>total_updated = 0, total_fines_calculated = 0\<rparr>"
  obtain ok1 t1 s1 where t: "transition_loop today s ?t0 ?ids = (ok1, t1, s1)"
    by (cases "transition_loop today s ?t0 ?ids")
  from transition_loop_ok [OF assms, of today ?t0 ?ids] t
  have s1: "books_ok s1" "members_ok s1" by simp_all
  show ?thesis
    using t s1 refresh_loop_ok [OF s1]
    by (simp add: cron_calculate_overdue_fines_def Let_def)
qed

subsection \<open>Members and books\<close>

lemma member_key_apply [simp]: "member_key (apply_member_vals v m) = member_key m"
  and current_borrowed_apply [simp]: "current_borrowed (apply_member_vals v m) = current_borrowed m"
  by (simp_all add: apply_member_vals_def)

lemma create_member_ok:
  assumes "books_ok s" "members_ok s" "create_member code s v = Inr s'"
  shows "books_ok s' \<and> members_ok s'"
proof -
  from assms(3) obtain v1 where
    s': "s' = s\<lparr>members := members s @ [new_member s v1], next_member := Suc (next_member s)\<rparr>"
    by (auto simp: create_member_def orm_create_member_def Let_def
        split: if_splits option.splits)
  have "current_borrowed (new_member s v1) = compute_current_borrowed (records s) (new_member s v1)"
    by (simp add: new_member_def Let_def compute_current_borrowed_held)
  with assms(1,2) show ?thesis
    by (auto simp: s' books_ok_def members_ok_def)
qed

lemma write_members_ok:
  assumes "books_ok s" "members_ok s" "write_members s ids v = Inr s'"
  shows "books_ok s' \<and> members_ok s'"
proof -
  from assms(3) obtain f where s': "s' = s\<lparr>members := map f (members s)\<rparr>"
    and f: "\<And>m. member_key (f m) = member_key m \<and> current_borrowed (f m) = current_borrowed m"
  proof (cases "mv_member_status v = None")
    case True
    with assms(3) have "s' = s\<lparr>members := map (\<lambda>m. if member_key m \<in> set ids
                               then apply_member_vals v m else m) (members s)\<rparr>"
      by (auto simp: write_members_def orm_write_members_def Let_def
          split: sum.splits if_splits option.splits)
    then show ?thesis by (rule that) simp
  next
    case False
    with assms(3) have "s' = s\<lparr>members := map ((\<lambda>m. if member_key m \<in> set ids
              then m\<lparr>max_borrow_limit := limit_of_status (member_status m)\<rparr> else m) \<circ>
         (\<lambda>m. if member_key m \<in> set ids then apply_member_vals v m else m)) (members s)\<rparr>"
      by (auto simp: write_members_def orm_write_members_def Let_def
          split: sum.splits if_splits option.splits)
    then show ?thesis by (rule that) simp
  qed
  with assms(1,2) show ?thesis
    by (auto simp: books_ok_def members_ok_def compute_current_borrowed_held)
qed

lemma unlink_members_ok:
  assumes "books_ok s" "members_ok s" "unlink_members s ids = Inr s'"
  shows "books_ok s' \<and> members_ok s'"
  using assms by (auto simp: unlink_members_def books_ok_def members_ok_def split: if_splits)

lemma create_book_ok:
  assumes "books_ok s" "members_ok s" "create_book s v = Inr s'"
  shows "books_ok s' \<and> members_ok s'"
proof -
  from assms(3) have
    s': "s' = s\<lparr>books := books s @ [new_book s v], next_book := Suc (next_book s)\<rparr>"
    by (auto simp: create_book_def Let_def split: if_splits option.splits)
  have "available_copies (new_book s v) = compute_available_copies (records s) (new_book s v)"
    by (simp add: new_book_def Let_def compute_available_copies_out)
  with assms(1,2) show ?thesis
    by (auto simp: s' books_ok_def members_ok_def)
qed

lemma book_key_apply [simp]: "book_key (apply_book_vals v b) = book_key b"
  and available_copies_apply [simp]:
    "available_copies (apply_book_vals v b) = available_copies b"
  by (simp_all add: apply_book_vals_def)

lemma write_books_ok:
  assumes ok: "books_ok s" "members_ok s" and w: "write_books s ids v = Inr s'"
  shows "books_ok s' \<and> members_ok s'"
proof -
  let ?bs = "map (\<lambda>b. if book_key b \<in> set ids then apply_book_vals v b else b) (books s)"
  from w have s': "s' = (if bv_total_copies v \<noteq> None
                         then recompute_books (set ids) (s\<lparr>books := ?bs\<rparr>) else s\<lparr>books := ?bs\<rparr>)"
    by (auto simp: write_books_def Let_def split: if_splits option.splits)
  have "books_ok s'"
  proof (cases "bv_total_copies v = None")
    case True
    then have "total_copies (apply_book_vals v b) = total_copies b" for b
      by (simp add: apply_book_vals_def or_keep_def)
    with ok(1) True show ?thesis
      by (auto simp: s' books_ok_def compute_available_copies_out)
  next
    case False
    have "books_ok (recompute_books (set ids) (s\<lparr>books := ?bs\<rparr>))"
      by (rule books_ok_recompute)
        (use ok(1) in \<open>auto simp: books_ok_def compute_available_copies_out\<close>)
    with False show ?thesis by (simp add: s')
  qed
  moreover have "members_ok s'"
    using ok(2) by (auto simp: s' members_ok_def)
  ultimately show ?thesis by simp
qed

lemma unlink_books_ok:
  assumes "books_ok s" "members_ok s" "unlink_books s ids = Inr s'"
  shows "books_ok s' \<and> members_ok s'"
  using assms by (auto simp: unlink_books_def books_ok_def members_ok_def split: if_splits)

subsection \<open>Every call\<close>

lemma call_ok:
  assumes "books_ok s" "members_ok s" "call today s c = Inr s'"
  shows "books_ok s' \<and> members_ok s'"
proof (cases c)
  case (ReturnBook i)
  with assms(3) obtain v where "write_records today s [i] v = Inr s'"
    by (auto simp: action_return_book_def Let_def split: option.splits if_splits sum.splits)
  then show ?thesis by (rule write_records_ok [OF assms(1,2)])
next
  case (ExtendDueDate i)
  with assms show ?thesis
    by (auto simp: action_extend_due_date_def split: option.splits if_splits)
next
  case UpdateOverdue
  with assms show ?thesis
    by (auto simp: update_overdue_records_def Let_def dest: write_records_ok)
next
  case CronFines
  with assms cron_ok [OF assms(1,2), of today] show ?thesis by auto
qed (use assms in \<open>auto dest: create_book_ok write_books_ok unlink_books_ok create_member_ok
      write_members_ok unlink_members_ok create_record_ok write_records_ok unlink_records_ok\<close>)

lemma reachable_ok: "reachable s \<Longrightarrow> books_ok s \<and> members_ok s"
proof (induction rule: reachable.induct)
  case init
  show ?case by (simp add: init_env_def books_ok_def members_ok_def)
next
  case (step s today c s')
  then show ?case using call_ok by blast
qed

section \<open>The example databases are reachable\<close>

lemmas book_eval_defs =
  browse_book_def apply_book_vals_def check_isbn_unique_def unique_isbn_def new_book_def
  create_book_def write_books_def

lemma reachable_desk: "reachable desk"
proof -
  have 1: "call 10 init_env (MemberCreate (Some ''M1'') ann) = Inr (club 0)"
    by (simp add: ann_def club_def reader_def init_env_def member_eval_defs)
  have 2: "call 10 (club 0) (BookCreate emma)
             = Inr ((club 0)\<lparr>books := [\<lparr>book_key = 1, title = ''Emma'', author = ''Austen'',
                      isbn = ''111'', total_copies = 2, available_copies = 2\<rparr>], next_book := 2\<rparr>)"
    by (simp add: emma_def club_def reader_def init_env_def book_eval_defs eval_defs)
  have 3: "call 10 ((club 0)\<lparr>books := [\<lparr>book_key = 1, title = ''Emma'', author = ''Austen'',
                      isbn = ''111'', total_copies = 2, available_copies = 2\<rparr>], next_book := 2\<rparr>)
             (RecordCreate (Some ''BR'') request) = Inr desk"
    by (simp add: request_def desk_def loan_def club_def reader_def init_env_def
        create_eval_defs eval_defs)
  from reachable.init 1 have "reachable (club 0)" by (rule reachable.step)
  from this 2 have "reachable ((club 0)\<lparr>books := [\<lparr>book_key = 1, title = ''Emma'',
      author = ''Austen'', isbn = ''111'', total_copies = 2, available_copies = 2\<rparr>],
      next_book := 2\<rparr>)" by (rule reachable.step)
  from this 3 show ?thesis by (rule reachable.step)
qed

lemma reachable_late_desk: "reachable late_desk"
proof -
  have "call 25 desk (RecordWrite [1] flag_overdue) = Inr late_desk"
    by (simp add: flag_overdue_def late_desk_def desk_def loan_def eval_defs)
  with reachable_desk show ?thesis by (rule reachable.step)
qed

lemma reachable_shelf: "reachable shelf"
proof -
  have "call 10 init_env (BookCreate written_off) = Inr shelf"
    by (simp add: written_off_def emma_def shelf_def stock_def init_env_def book_eval_defs
        eval_defs)
  with reachable.init show ?thesis by (rule reachable.step)
qed

section \<open>Available copies\<close>

text \<open>
  Claim C3, as the code has it. In every reachable database, the \<open>available_copies\<close> of
  every book is \<open>max 0 (total_copies - n)\<close>, where \<open>n\<close> counts the book's borrowing
  records with status \<open>borrowed\<close> or \<open>overdue\<close>. So \<open>available_copies\<close> is never negative,
  and it is at most \<open>total_copies\<close> whenever \<open>total_copies\<close> is not negative.
\<close>

theorem available_copies_derived:
  assumes "reachable s" "b \<in> set (books s)"
  shows "available_copies b =
           max 0 (total_copies b -
             int (length (filter (\<lambda>r. book_id r = book_key b \<and> status r \<in> {Borrowed, Overdue})
                            (records s)))) \<and>
         0 \<le> available_copies b \<and>
         (0 \<le> total_copies b \<longrightarrow> available_copies b \<le> total_copies b)"
proof -
  from reachable_ok [OF assms(1)] assms(2)
  have "available_copies b = compute_available_copies (records s) b"
    by (simp add: books_ok_def)
  then show ?thesis
    by (simp add: compute_available_copies_out out_count_def)
qed

theorem available_copies_derived_witness:
  "reachable desk \<and> stock 2 1 \<in> set (books desk) \<and>
   available_copies (stock 2 1) =
     max 0 (total_copies (stock 2 1) -
       int (length (filter (\<lambda>r. book_id r = book_key (stock 2 1) \<and>
                                 status r \<in> {Borrowed, Overdue}) (records desk)))) \<and>
   0 \<le> available_copies (stock 2 1) \<and> 0 \<le> total_copies (stock 2 1) \<and>
   available_copies (stock 2 1) \<le> total_copies (stock 2 1)"
proof -
  have b: "stock 2 1 \<in> set (books desk)" by (simp add: desk_def stock_def)
  have t: "0 \<le> total_copies (stock 2 1)" by (simp add: stock_def)
  from available_copies_derived [OF reachable_desk b] t show ?thesis
    using reachable_desk b by blast
qed

text \<open>
  Claim C3 as stated bounds \<open>available_copies\<close> by \<open>total_copies\<close> always. No constraint
  keeps \<open>total_copies\<close> from being negative: a book created with \<open>total_copies = -1\<close> has
  \<open>available_copies = 0\<close>, above its total.
\<close>

theorem available_copies_above_negative_total:
  "call 10 init_env (BookCreate written_off) = Inr shelf \<and> reachable shelf \<and>
   stock (- 1) 0 \<in> set (books shelf) \<and>
   \<not> available_copies (stock (- 1) 0) \<le> total_copies (stock (- 1) 0)"
proof -
  have "call 10 init_env (BookCreate written_off) = Inr shelf"
    by (simp add: written_off_def emma_def shelf_def stock_def init_env_def book_eval_defs
        eval_defs)
  then show ?thesis using reachable_shelf by (simp add: shelf_def stock_def)
qed

section \<open>Currently borrowed\<close>

text \<open>
  Claim C4. In every reachable database, the \<open>current_borrowed\<close> of every member is the
  number of the member's borrowing records whose status is exactly \<open>borrowed\<close>: a record
  that is overdue or returned does not count, while an overdue record still counts
  against the book's available copies.
\<close>

theorem current_borrowed_counts_borrowed:
  assumes "reachable s" "m \<in> set (members s)"
  shows "current_borrowed m =
           int (length (filter (\<lambda>r. member_id r = member_key m \<and> status r = Borrowed)
                          (records s)))"
proof -
  from reachable_ok [OF assms(1)] assms(2)
  have "current_borrowed m = compute_current_borrowed (records s) m"
    by (simp add: members_ok_def)
  then show ?thesis
    by (simp add: compute_current_borrowed_held held_count_def)
qed

theorem current_borrowed_counts_borrowed_witness:
  "reachable late_desk \<and> reader 0 \<in> set (members late_desk) \<and>
   map status (records late_desk) = [Overdue] \<and>
   current_borrowed (reader 0) =
     int (length (filter (\<lambda>r. member_id r = member_key (reader 0) \<and> status r = Borrowed)
                    (records late_desk))) \<and>
   current_borrowed (reader 0) = 0 \<and>
   map available_copies (books late_desk) = [1] \<and> map total_copies (books late_desk) = [2]"
proof -
  have m: "reader 0 \<in> set (members late_desk)"
    by (simp add: late_desk_def desk_def reader_def)
  from current_borrowed_counts_borrowed [OF reachable_late_desk m] show ?thesis
    using reachable_late_desk m by (simp add: late_desk_def desk_def loan_def reader_def)
qed

section \<open>The daily fine sweep\<close>

lemma find_key_unique:
  "distinct (map k xs) \<Longrightarrow> x \<in> set xs \<Longrightarrow> find (\<lambda>y. k y = k x) xs = Some x"
  by (induction xs) (auto simp: image_iff)

lemma browse_row:
  "distinct (map record_key (records s)) \<Longrightarrow> r \<in> set (records s) \<Longrightarrow>
   browse_record s (record_key r) = Some r"
  by (simp add: browse_record_def find_key_unique)

lemma keys_assign [simp]:
  "map record_key (assign_records today ids v rs) = map record_key rs"
  by (simp add: assign_records_def)

lemma search_records_set:
  "set (search_records P s) = record_key ` {r \<in> set (records s). P r}"
  by (auto simp: search_records_def)

lemma search_records_distinct:
  assumes "distinct (map record_key (records s))"
  shows "distinct (search_records P s)"
proof -
  from assms have "distinct (records s)" "inj_on record_key (set (records s))"
    by (simp_all add: distinct_map)
  then have "distinct (sort_key (\<lambda>r. - borrow_date r) (filter P (records s)))"
    "inj_on record_key (set (sort_key (\<lambda>r. - borrow_date r) (filter P (records s))))"
    by (auto intro: inj_on_subset)
  then show ?thesis
    by (simp add: search_records_def distinct_map)
qed

lemma search_records_mem:
  assumes "distinct (map record_key (records s))" "r \<in> set (records s)"
  shows "record_key r \<in> set (search_records P s) \<longleftrightarrow> P r"
proof
  assume "record_key r \<in> set (search_records P s)"
  then obtain x where x: "x \<in> set (records s)" "P x" "record_key x = record_key r"
    by (auto simp: search_records_set)
  from assms(1) have "inj_on record_key (set (records s))" by (simp add: distinct_map)
  with x assms(2) have "x = r" by (auto dest: inj_onD)
  with x show "P r" by simp
next
  assume "P r"
  with assms(2) show "record_key r \<in> set (search_records P s)"
    by (auto simp: search_records_set)
qed

lemma assign_one_row:
  assumes d: "distinct (map record_key (records s))" and b: "browse_record s i = Some r"
  shows "assign_records today [i] v (records s)
           = map (\<lambda>x. if record_key x = i then written today v r else x) (records s)"
proof -
  have "x = r" if "x \<in> set (records s)" "record_key x = i" for x
    using browse_row [OF d that(1)] that(2) b by simp
  then show ?thesis
    by (auto simp: assign_records_def)
qed

lemma written_fine_vals:
  "written today (fine_vals d f) r = r\<lparr>days_overdue := d, fine_amount := f\<rparr>"
  "written today ((fine_vals d f)\<lparr>v_status := Some Overdue\<rparr>) r
     = r\<lparr>days_overdue := d, fine_amount := f, status := Overdue\<rparr>"
  by (simp_all add: written_def fine_vals_def no_vals_def apply_record_vals_def or_keep_def
      refresh_days_overdue_def days_overdue_stale_def)

lemma fine_vals_free:
  "v_member_id (fine_vals d f) = None" "v_book_id (fine_vals d f) = None"
  "v_member_id ((fine_vals d f)\<lparr>v_status := Some Overdue\<rparr>) = None"
  "v_book_id ((fine_vals d f)\<lparr>v_status := Some Overdue\<rparr>) = None"
  "record_constraints (fine_vals d f) rs = None"
  "record_constraints ((fine_vals d f)\<lparr>v_status := Some Overdue\<rparr>) rs = None"
  by (simp_all add: fine_vals_def no_vals_def record_constraints_def)

lemma transition_loop_records:
  assumes "distinct (map record_key (records s))" "distinct ids"
    "set ids \<subseteq> record_key ` set (records s)"
  shows "\<exists>t' s'. transition_loop today s t ids = (True, t', s') \<and>
           total_updated t' = total_updated t + length ids \<and>
           records s' = map (\<lambda>r. if record_key r \<in> set ids
                               then (fined today r)\<lparr>status := Overdue\<rparr> else r) (records s)"
  using assms
proof (induction ids arbitrary: s t)
  case Nil
  then show ?case by simp
next
  case (Cons i ids)
  from Cons.prems obtain r where r: "r \<in> set (records s)" "record_key r = i" by auto
  with Cons.prems have b: "browse_record s i = Some r" using browse_row by blast
  let ?d = "today - expected_return_date r"
  let ?f = "of_int ?d * fine_per_day r"
  let ?v = "(fine_vals ?d ?f)\<lparr>v_status := Some Overdue\<rparr>"
  obtain s1 where w: "write_records today s [i] ?v = Inr s1"
    and rs1: "records s1 = assign_records today [i] ?v (records s)"
    using write_records_one [OF Cons.prems(1) b fine_vals_free(3,4) fine_vals_free(6)] by blast
  have rs1': "records s1 = map (\<lambda>x. if record_key x = i
                 then (fined today r)\<lparr>status := Overdue\<rparr> else x) (records s)"
    by (simp add: rs1 assign_one_row [OF Cons.prems(1) b] written_fine_vals fined_def)
  have d1: "distinct (map record_key (records s1))"
    using Cons.prems(1) by (simp add: rs1)
  have k1: "set ids \<subseteq> record_key ` set (records s1)"
  proof -
    have "record_key ` set (records s1) = set (map record_key (records s1))" by simp
    also have "\<dots> = record_key ` set (records s)" by (simp add: rs1)
    finally show ?thesis using Cons.prems(3) by simp
  qed
  from Cons.prems(2) have di: "distinct ids" "i \<notin> set ids" by simp_all
  from Cons.IH [OF d1 di(1) k1, of "count_update ?f t"] obtain t' s' where
    t: "transition_loop today s1 (count_update ?f t) ids = (True, t', s')"
    and n: "total_updated t' = total_updated (count_update ?f t) + length ids"
    and rs': "records s' = map (\<lambda>r. if record_key r \<in> set ids
                               then (fined today r)\<lparr>status := Overdue\<rparr> else r) (records s1)"
    by blast
  have same: "x = r" if "x \<in> set (records s)" "record_key x = i" for x
    using browse_row [OF Cons.prems(1) that(1)] that(2) b by simp
  have "records s' = map (\<lambda>r. if record_key r \<in> set (i # ids)
                               then (fined today r)\<lparr>status := Overdue\<rparr> else r) (records s)"
    unfolding rs' rs1' using di(2) same by (auto simp: fined_def)
  moreover have "transition_loop today s t (i # ids) = (True, t', s')"
    using b w t by (simp add: Let_def)
  moreover have "total_updated t' = total_updated t + length (i # ids)"
    using n by (simp add: count_update_def)
  ultimately show ?case by blast
qed

lemma refresh_loop_records:
  assumes "distinct (map record_key (records s))" "distinct ids"
    "set ids \<subseteq> record_key ` set (records s)"
  shows "\<exists>t' s'. refresh_loop today s t ids = (True, t', s') \<and>
           records s' = map (\<lambda>r. if record_key r \<in> set ids then fined today r else r)
                          (records s)"
  using assms
proof (induction ids arbitrary: s t)
  case Nil
  then show ?case by simp
next
  case (Cons i ids)
  from Cons.prems obtain r where r: "r \<in> set (records s)" "record_key r = i" by auto
  with Cons.prems have b: "browse_record s i = Some r" using browse_row by blast
  let ?d = "today - expected_return_date r"
  let ?f = "of_int ?d * fine_per_day r"
  let ?v = "fine_vals ?d ?f"
  have same: "x = r" if "x \<in> set (records s)" "record_key x = i" for x
    using browse_row [OF Cons.prems(1) that(1)] that(2) b by simp
  obtain s1 t1 where step: "refresh_loop today s t (i # ids) = refresh_loop today s1 t1 ids"
    and rs1': "records s1 = map (\<lambda>x. if record_key x = i then fined today r else x) (records s)"
  proof (cases "fine_amount r \<noteq> ?f \<or> days_overdue r \<noteq> ?d")
    case True
    obtain s1 where w: "write_records today s [i] ?v = Inr s1"
      and rs1: "records s1 = assign_records today [i] ?v (records s)"
      using write_records_one [OF Cons.prems(1) b fine_vals_free(1,2) fine_vals_free(5)] by blast
    have "records s1 = map (\<lambda>x. if record_key x = i then fined today r else x) (records s)"
      by (simp add: rs1 assign_one_row [OF Cons.prems(1) b] written_fine_vals fined_def)
    moreover have "refresh_loop today s t (i # ids)
                     = refresh_loop today s1 (count_update ?f t) ids"
      using b w True by (simp add: Let_def)
    ultimately show ?thesis by (rule that [rotated])
  next
    case False
    then have "fined today r = r" by (simp add: fined_def)
    with same have "map (\<lambda>x. if record_key x = i then fined today r else x) (records s) = records s"
      by (intro map_idI) auto
    then have "records s = map (\<lambda>x. if record_key x = i then fined today r else x) (records s)"
      by simp
    moreover have "refresh_loop today s t (i # ids) = refresh_loop today s t ids"
      using b False by (simp add: Let_def)
    ultimately show ?thesis by (rule that [rotated])
  qed
  have keys: "map record_key (records s1) = map record_key (records s)"
    using r(2) by (simp add: rs1' fined_def)
  have d1: "distinct (map record_key (records s1))"
    using Cons.prems(1) by (simp only: keys)
  have k1: "set ids \<subseteq> record_key ` set (records s1)"
  proof -
    from keys have "record_key ` set (records s1) = record_key ` set (records s)"
      by (metis set_map)
    then show ?thesis using Cons.prems(3) by simp
  qed
  from Cons.prems(2) have di: "distinct ids" "i \<notin> set ids" by simp_all
  from Cons.IH [OF d1 di(1) k1, of t1] obtain t' s' where
    t: "refresh_loop today s1 t1 ids = (True, t', s')"
    and rs': "records s' = map (\<lambda>r. if record_key r \<in> set ids then fined today r else r)
                             (records s1)"
    by blast
  have "records s' = map (\<lambda>r. if record_key r \<in> set (i # ids) then fined today r else r)
                        (records s)"
    unfolding rs' rs1' using di(2) same by (auto simp: fined_def)
  with step t show ?case by simp
qed

lemma refresh_loop_noop:
  assumes "\<forall>i\<in>set ids. \<exists>r. browse_record s i = Some r \<and>
             fine_amount r = of_int (today - expected_return_date r) * fine_per_day r \<and>
             days_overdue r = today - expected_return_date r"
  shows "refresh_loop today s t ids = (True, t, s)"
  using assms by (induction ids) (auto simp: Let_def)

lemma search_records_rows:
  assumes "distinct (map record_key (records s))" "i \<in> set (search_records P s)"
  shows "\<exists>r. r \<in> set (records s) \<and> P r \<and> browse_record s i = Some r"
proof -
  from assms(2) obtain r where "r \<in> set (records s)" "P r" "record_key r = i"
    by (auto simp: search_records_set)
  with browse_row [OF assms(1)] show ?thesis by blast
qed

lemma search_records_keys:
  "set (search_records P s) \<subseteq> record_key ` set (records s)"
  by (auto simp: search_records_set)

lemma cron_settled_noop:
  assumes d: "distinct (map record_key (records s))" and st: "settled today (records s)"
  shows "cron_calculate_overdue_fines today s
           = (True, \<lparr>total_updated = 0, total_fines_calculated = 0\<rparr>, s)"
proof -
  have "filter (\<lambda>r. status r = Borrowed \<and> expected_return_date r < today) (records s) = []"
    using st by (auto simp: settled_def filter_empty_conv)
  then have e: "search_records (\<lambda>r. status r = Borrowed \<and> expected_return_date r < today) s = []"
    by (simp add: search_records_def)
  have "refresh_loop today s \<lparr>total_updated = 0, total_fines_calculated = 0\<rparr>
          (search_records (\<lambda>r. status r = Overdue \<and> expected_return_date r < today) s)
        = (True, \<lparr>total_updated = 0, total_fines_calculated = 0\<rparr>, s)"
  proof (rule refresh_loop_noop, rule ballI)
    fix i
    assume "i \<in> set (search_records (\<lambda>r. status r = Overdue \<and> expected_return_date r < today) s)"
    from search_records_rows [OF d this] obtain r where
      "r \<in> set (records s)" "status r = Overdue" "expected_return_date r < today"
      "browse_record s i = Some r" by blast
    with st show "\<exists>r. browse_record s i = Some r \<and>
             fine_amount r = of_int (today - expected_return_date r) * fine_per_day r \<and>
             days_overdue r = today - expected_return_date r"
      by (auto simp: settled_def)
  qed
  with e show ?thesis
    by (simp add: cron_calculate_overdue_fines_def)
qed

lemma cron_records:
  assumes d: "distinct (map record_key (records s))"
  shows "\<exists>t' s'. cron_calculate_overdue_fines today s = (True, t', s') \<and>
           records s' =
             map (\<lambda>r. if expected_return_date r < today \<and> status r \<noteq> Returned
                       then (fined today r)\<lparr>status := Overdue\<rparr> else r) (records s)"
proof -
  let ?P1 = "\<lambda>r. status r = Borrowed \<and> expected_return_date r < today"
  let ?P2 = "\<lambda>r. status r = Overdue \<and> expected_return_date r < today"
  let ?t0 = "\<lparr>total_updated = 0, total_fines_calculated = 0\<rparr>"
  from transition_loop_records [OF d search_records_distinct [OF d] search_records_keys]
  obtain t1 s1 where t: "transition_loop today s ?t0 (search_records ?P1 s) = (True, t1, s1)"
    and rs1: "records s1 = map (\<lambda>r. if record_key r \<in> set (search_records ?P1 s)
                               then (fined today r)\<lparr>status := Overdue\<rparr> else r) (records s)"
    by blast
  have rs1': "records s1 = map (\<lambda>r. if ?P1 r then (fined today r)\<lparr>status := Overdue\<rparr> else r)
                             (records s)"
    unfolding rs1 by (rule map_cong) (simp_all add: search_records_mem [OF d])
  have "map record_key (records s1) = map record_key (records s)"
    by (simp add: rs1' fined_def)
  with d have d1: "distinct (map record_key (records s1))"
    by simp
  from refresh_loop_records [OF d1 search_records_distinct [OF d1] search_records_keys]
  obtain t2 s2 where u: "refresh_loop today s1 t1 (search_records ?P2 s1) = (True, t2, s2)"
    and rs2: "records s2 = map (\<lambda>r. if record_key r \<in> set (search_records ?P2 s1)
                               then fined today r else r) (records s1)"
    by blast
  have rs2': "records s2 = map (\<lambda>r. if ?P2 r then fined today r else r) (records s1)"
    unfolding rs2 by (rule map_cong) (simp_all add: search_records_mem [OF d1])
  have "records s2 = map (\<lambda>r. if expected_return_date r < today \<and> status r \<noteq> Returned
                       then (fined today r)\<lparr>status := Overdue\<rparr> else r) (records s)"
  proof -
    have "(if ?P2 (if ?P1 r then (fined today r)\<lparr>status := Overdue\<rparr> else r)
           then fined today (if ?P1 r then (fined today r)\<lparr>status := Overdue\<rparr> else r)
           else (if ?P1 r then (fined today r)\<lparr>status := Overdue\<rparr> else r))
          = (if expected_return_date r < today \<and> status r \<noteq> Returned
             then (fined today r)\<lparr>status := Overdue\<rparr> else r)" for r
      by (cases "status r") (simp_all add: fined_def)
    then show ?thesis
      unfolding rs2' rs1' map_map o_def by simp
  qed
  moreover have "cron_calculate_overdue_fines today s = (True, t2, s2)"
    using t u by (simp add: cron_calculate_overdue_fines_def)
  ultimately show ?thesis by blast
qed

text \<open>
  Claim C5. Running \<open>cron_calculate_overdue_fines\<close> twice in succession with the same
  reference date gives exactly the state of running it once. On a table whose record ids are
  pairwise different (they are primary keys) the first run returns true. In the state it
  leaves, no record is borrowed and past due, so the second run transitions nothing, and
  every overdue record past due already holds the recomputed \<open>days_overdue\<close> and
  \<open>fine_amount\<close>. The second run returns true, leaves the state unchanged, and makes no
  \<open>write\<close> at all: its \<open>total_updated\<close> and \<open>total_fines_calculated\<close>, which the method
  increases after every write, are still 0 at the end.
\<close>

theorem fine_sweep_idempotent:
  assumes "distinct (map record_key (records s))"
  shows "fst (cron_calculate_overdue_fines today s) = True \<and>
         search_records (\<lambda>r. status r = Borrowed \<and> expected_return_date r < today)
           (snd (snd (cron_calculate_overdue_fines today s))) = [] \<and>
         settled today (records (snd (snd (cron_calculate_overdue_fines today s)))) \<and>
         cron_calculate_overdue_fines today (snd (snd (cron_calculate_overdue_fines today s)))
           = (True, \<lparr>total_updated = 0, total_fines_calculated = 0\<rparr>,
              snd (snd (cron_calculate_overdue_fines today s)))"
proof -
  from cron_records [OF assms] obtain t' s' where
    c: "cron_calculate_overdue_fines today s = (True, t', s')"
    and rs: "records s' =
             map (\<lambda>r. if expected_return_date r < today \<and> status r \<noteq> Returned
                       then (fined today r)\<lparr>status := Overdue\<rparr> else r) (records s)"
    by blast
  have "map record_key (records s') = map record_key (records s)"
    by (simp add: rs fined_def)
  with assms have d: "distinct (map record_key (records s'))"
    by simp
  have st: "settled today (records s')"
    unfolding settled_def rs
  proof (rule ballI, rule impI)
    fix x
    assume x: "x \<in> set (map (\<lambda>r. if expected_return_date r < today \<and> status r \<noteq> Returned
                       then (fined today r)\<lparr>status := Overdue\<rparr> else r) (records s))"
      and late: "expected_return_date x < today"
    from x have "\<exists>r. x = (if expected_return_date r < today \<and> status r \<noteq> Returned
                then (fined today r)\<lparr>status := Overdue\<rparr> else r)"
      unfolding set_map image_iff by blast
    then obtain r where
      xr: "x = (if expected_return_date r < today \<and> status r \<noteq> Returned
                then (fined today r)\<lparr>status := Overdue\<rparr> else r)"
      by (rule exE)
    show "status x \<noteq> Borrowed \<and>
        (status x = Overdue \<longrightarrow>
           fine_amount x = of_int (today - expected_return_date x) * fine_per_day x \<and>
           days_overdue x = today - expected_return_date x)"
      using late unfolding xr by (cases "status r") (auto simp: fined_def split: if_splits)
  qed
  have "filter (\<lambda>r. status r = Borrowed \<and> expected_return_date r < today) (records s') = []"
    using st by (auto simp: settled_def filter_empty_conv)
  then have e: "search_records (\<lambda>r. status r = Borrowed \<and> expected_return_date r < today) s' = []"
    by (simp add: search_records_def)
  from cron_settled_noop [OF d st] c st e show ?thesis
    by simp
qed

text \<open>
  On \<open>busy_desk\<close> at day 25 the first run makes two writes: it flags the borrowed loan
  (5 days, fine 25), and it refreshes the stale overdue loan (10 days, fine 50); the loan it has
  just flagged already holds the recomputed values and is not written again by the second
  loop. The second run makes none.
\<close>

theorem fine_sweep_idempotent_witness:
  "distinct (map record_key (records busy_desk)) \<and>
   fst (cron_calculate_overdue_fines 25 busy_desk) = True \<and>
   fst (snd (cron_calculate_overdue_fines 25 busy_desk))
     = \<lparr>total_updated = 2, total_fines_calculated = 75\<rparr> \<and>
   records (snd (snd (cron_calculate_overdue_fines 25 busy_desk)))
     = [(loan 1 1 1 10 20 Overdue)\<lparr>days_overdue := 5, fine_amount := 25\<rparr>,
        (loan 2 1 1 5 15 Overdue)\<lparr>days_overdue := 10, fine_amount := 50\<rparr>] \<and>
   settled 25 (records (snd (snd (cron_calculate_overdue_fines 25 busy_desk)))) \<and>
   cron_calculate_overdue_fines 25 (snd (snd (cron_calculate_overdue_fines 25 busy_desk)))
     = (True, \<lparr>total_updated = 0, total_fines_calculated = 0\<rparr>,
        snd (snd (cron_calculate_overdue_fines 25 busy_desk)))"
proof -
  have d: "distinct (map record_key (records busy_desk))"
    by (simp add: busy_desk_def desk_def loan_def)
  have tot: "fst (snd (cron_calculate_overdue_fines 25 busy_desk))
     = \<lparr>total_updated = 2, total_fines_calculated = 75\<rparr>"
    by (simp add: cron_calculate_overdue_fines_def search_records_def busy_desk_def desk_def
        loan_def fine_vals_def count_update_def eval_defs)
  from cron_records [OF d, of 25] obtain t' s' where
    c: "cron_calculate_overdue_fines 25 busy_desk = (True, t', s')"
    and rs: "records s' =
             map (\<lambda>r. if expected_return_date r < 25 \<and> status r \<noteq> Returned
                       then (fined 25 r)\<lparr>status := Overdue\<rparr> else r) (records busy_desk)"
    by blast
  have "records s' = [(loan 1 1 1 10 20 Overdue)\<lparr>days_overdue := 5, fine_amount := 25\<rparr>,
        (loan 2 1 1 5 15 Overdue)\<lparr>days_overdue := 10, fine_amount := 50\<rparr>]"
    by (simp add: rs busy_desk_def desk_def loan_def fined_def)
  with fine_sweep_idempotent [OF d, of 25] d c tot show ?thesis
    by simp
qed

end
